theory Spec2Isabelle
  imports Main "HOL-Library.Sublist"
begin

section \<open>Strings of the host language\<close>

text \<open>
  The extension is TypeScript. A string is modelled as a \<^typ>\<open>string\<close> (a list of
  \<^typ>\<open>char\<close>), one \<^typ>\<open>char\<close> per code unit; code units above 255 are outside the model.
\<close>

text \<open>
  \<^verbatim>\<open>s.split(sep)\<close> for a separator of one character: the pieces between the separators,
  in order; the empty string gives one empty piece.
\<close>

fun split_on :: "char \<Rightarrow> string \<Rightarrow> string list" where
  "split_on sep [] = [[]]"
| "split_on sep (c # cs) =
     (case split_on sep cs of
        [] \<Rightarrow> [[c]]
      | w # ws \<Rightarrow> if c = sep then [] # w # ws else (c # w) # ws)"

section \<open>isNewer (extension.ts, lines 557-565)\<close>

text \<open>
  \<^verbatim>\<open>Number(s)\<close> yields a double or NaN. Only the comparisons \<^verbatim>\<open>></\<close> and \<^verbatim>\<open><\<close> are applied
  to the results, so a number is modelled as NaN or a value of a linear order, and the
  conversion itself is a parameter \<open>num\<close> of the model.
\<close>

datatype 'v jsnumber = NaN | Num 'v

fun js_gt :: "('v::linorder) jsnumber \<Rightarrow> 'v jsnumber \<Rightarrow> bool" where
  "js_gt (Num a) (Num b) = (b < a)"
| "js_gt _ _ = False"

fun js_lt :: "('v::linorder) jsnumber \<Rightarrow> 'v jsnumber \<Rightarrow> bool" where
  "js_lt (Num a) (Num b) = (a < b)"
| "js_lt _ _ = False"

text \<open>\<^verbatim>\<open>r[i] ?? 0\<close>: an index past the end reads \<^verbatim>\<open>undefined\<close>, which \<^verbatim>\<open>??\<close> replaces by 0;
  NaN is not nullish and stays.\<close>

definition at_or_zero :: "('v::{linorder,zero}) jsnumber list \<Rightarrow> nat \<Rightarrow> 'v jsnumber" where
  "at_or_zero r i = (if i < length r then r ! i else Num 0)"

text \<open>The body of the loop at index \<open>i\<close> returns when one of its two tests holds.\<close>

definition decides_at :: "('v::{linorder,zero}) jsnumber list \<Rightarrow> 'v jsnumber list \<Rightarrow> nat \<Rightarrow> bool" where
  "decides_at r l i =
     (js_gt (at_or_zero r i) (at_or_zero l i) \<or> js_lt (at_or_zero r i) (at_or_zero l i))"

function isNewer_loop :: "('v::{linorder,zero}) jsnumber list \<Rightarrow> 'v jsnumber list \<Rightarrow> nat \<Rightarrow> bool" where
  "isNewer_loop r l i =
     (if i < 3 then
        (if js_gt (at_or_zero r i) (at_or_zero l i) then True
         else if js_lt (at_or_zero r i) (at_or_zero l i) then False
         else isNewer_loop r l (i + 1))
      else False)"
  by pat_completeness auto
termination
  by (relation "measure (\<lambda>(r, l, i). 3 - i)") auto

declare isNewer_loop.simps [simp del]

definition isNewer :: "(string \<Rightarrow> ('v::{linorder,zero}) jsnumber) \<Rightarrow> string \<Rightarrow> string \<Rightarrow> bool" where
  "isNewer num remote local =
     isNewer_loop (map num (split_on CHR ''.'' remote)) (map num (split_on CHR ''.'' local)) 0"

text \<open>
  A conversion for examples: it agrees with \<^verbatim>\<open>Number\<close> on the empty string and on strings
  of decimal digits (exactly so below \<open>2^53\<close>); every other string is sent to NaN here,
  which \<^verbatim>\<open>Number\<close> does not do for signs, exponents, hexadecimal literals or surrounding
  white space. The general theorems quantify over the conversion.
\<close>

definition digit_val :: "char \<Rightarrow> nat option" where
  "digit_val c =
     (let n = (of_char c :: nat) in if 48 \<le> n \<and> n \<le> 57 then Some (n - 48) else None)"

fun digits_val :: "nat \<Rightarrow> string \<Rightarrow> nat option" where
  "digits_val acc [] = Some acc"
| "digits_val acc (c # cs) =
     (case digit_val c of None \<Rightarrow> None | Some d \<Rightarrow> digits_val (10 * acc + d) cs)"

definition Number_digits :: "string \<Rightarrow> int jsnumber" where
  "Number_digits s = (case digits_val 0 s of None \<Rightarrow> NaN | Some n \<Rightarrow> Num (int n))"


section \<open>rewriteRootPaths (extension.ts, lines 209-216)\<close>

text \<open>
  \<^verbatim>\<open>String.prototype.replace\<close> with a replacement string expands the patterns \<^verbatim>\<open>$$\<close>,
  \<^verbatim>\<open>$&\<close>, the dollar sign followed by a backquote (the text before the match) and
  the dollar sign followed by a quote (the text after it). The three regular
  expressions of \<open>rewriteRootPaths\<close> have no capture group, so a dollar sign followed by
  a digit or by \<^verbatim>\<open><\<close> stays as it is.
\<close>

fun get_substitution :: "string \<Rightarrow> string \<Rightarrow> string \<Rightarrow> string \<Rightarrow> string" where
  "get_substitution matched preceding following [] = []"
| "get_substitution matched preceding following [c] = [c]"
| "get_substitution matched preceding following (c # d # rest) =
     (if c = CHR ''$'' then
        (if d = CHR ''$'' then CHR ''$'' # get_substitution matched preceding following rest
         else if d = CHR ''&'' then matched @ get_substitution matched preceding following rest
         else if d = CHR 0x60 then preceding @ get_substitution matched preceding following rest
         else if d = CHR 0x27 then following @ get_substitution matched preceding following rest
         else c # get_substitution matched preceding following (d # rest))
      else c # get_substitution matched preceding following (d # rest))"

text \<open>
  \<^verbatim>\<open>s.replace(/pat/g, template)\<close> for a pattern that is a literal text: the string is
  scanned from the left, every match is replaced by the expanded template and the scan
  goes on behind the match. \<open>preceding\<close> is the part of the string already scanned. (An
  empty pattern matches before every character and at the end.)
\<close>

function js_replace_all :: "string \<Rightarrow> string \<Rightarrow> string \<Rightarrow> string \<Rightarrow> string" where
  "js_replace_all pat template preceding s =
     (if prefix pat s then
        get_substitution pat preceding (drop (length pat) s) template @
          (if pat = [] then
             (case s of [] \<Rightarrow> [] | c # cs \<Rightarrow> c # js_replace_all pat template (preceding @ [c]) cs)
           else js_replace_all pat template (preceding @ pat) (drop (length pat) s))
      else
        (case s of [] \<Rightarrow> [] | c # cs \<Rightarrow> c # js_replace_all pat template (preceding @ [c]) cs))"
  by pat_completeness auto
termination
  by (relation "measure (\<lambda>(pat, template, preceding, s). length s)") (auto simp: prefix_def)

declare js_replace_all.simps [simp del]

definition dquote :: char where
  "dquote = CHR 0x22"

definition slash :: char where
  "slash = CHR ''/''"

text \<open>The pattern \<^verbatim>\<open>attr="/\<close> and the template \<^verbatim>\<open>attr="${rootUri}/\<close> of one attribute.\<close>

definition attr_pattern :: "string \<Rightarrow> string" where
  "attr_pattern attr = attr @ [CHR ''='', dquote, slash]"

definition attr_template :: "string \<Rightarrow> string \<Rightarrow> string" where
  "attr_template attr rootUri = attr @ [CHR ''='', dquote] @ rootUri @ [slash]"

definition attr_pass :: "string \<Rightarrow> string \<Rightarrow> string \<Rightarrow> string" where
  "attr_pass attr rootUri s =
     js_replace_all (attr_pattern attr) (attr_template attr rootUri) [] s"

definition rewriteRootPaths :: "string \<Rightarrow> string \<Rightarrow> string" where
  "rewriteRootPaths html rootUri =
     attr_pass ''action'' rootUri (attr_pass ''src'' rootUri (attr_pass ''href'' rootUri html))"

text \<open>
  What claim C10 says the rewrite does, in one pass over the text: wherever one of the
  three substrings occurs it is replaced, and every other character is copied.
\<close>

function replace_occurrences :: "string \<Rightarrow> string \<Rightarrow> string" where
  "replace_occurrences rootUri s =
     (if prefix (attr_pattern ''href'') s then
        attr_template ''href'' rootUri @
          replace_occurrences rootUri (drop (length (attr_pattern ''href'')) s)
      else if prefix (attr_pattern ''src'') s then
        attr_template ''src'' rootUri @
          replace_occurrences rootUri (drop (length (attr_pattern ''src'')) s)
      else if prefix (attr_pattern ''action'') s then
        attr_template ''action'' rootUri @
          replace_occurrences rootUri (drop (length (attr_pattern ''action'')) s)
      else (case s of [] \<Rightarrow> [] | c # cs \<Rightarrow> c # replace_occurrences rootUri cs))"
  by pat_completeness auto
termination
  by (relation "measure (\<lambda>(rootUri, s). length s)") (auto simp: prefix_def attr_pattern_def)

declare replace_occurrences.simps [simp del]

text \<open>
  A function on texts that works quote by quote: up to the first double quote the text
  is copied, \<open>root\<close> is inserted behind that quote when the text before it satisfies
  \<open>C\<close> and a slash follows, and the rest is treated the same way.
\<close>

definition quotewise :: "(string \<Rightarrow> bool) \<Rightarrow> string \<Rightarrow> (string \<Rightarrow> string) \<Rightarrow> bool" where
  "quotewise C root f \<longleftrightarrow>
     (\<forall>w. dquote \<notin> set w \<longrightarrow> f w = w) \<and>
     (\<forall>w rest. dquote \<notin> set w \<longrightarrow>
        f (w @ dquote # rest) =
          w @ dquote # (if C w \<and> prefix [slash] rest then root else []) @ f rest)"

text \<open>The text in front of the quote of a pattern: free of quotes, slashes and dollar signs.\<close>

definition plain :: "string \<Rightarrow> bool" where
  "plain E \<longleftrightarrow> E \<noteq> [] \<and> dquote \<notin> set E \<and> slash \<notin> set E \<and> CHR ''$'' \<notin> set E"

text \<open>The text in front of a quote ends with one of the three attribute names and \<^verbatim>\<open>=\<close>.\<close>

definition closes_attr :: "string \<Rightarrow> bool" where
  "closes_attr w \<longleftrightarrow> suffix ''href='' w \<or> suffix ''src='' w \<or> suffix ''action='' w"

text \<open>One pass of \<open>rewriteRootPaths\<close>, for the text \<open>E\<close> in front of the quote of its pattern.\<close>

definition pass :: "string \<Rightarrow> string \<Rightarrow> string \<Rightarrow> string" where
  "pass E root s = js_replace_all (E @ [dquote, slash]) (E @ dquote # root @ [slash]) [] s"

section \<open>The path module\<close>

text \<open>
  \<^verbatim>\<open>path\<close> is the module of the platform the extension host runs on. The functions of
  the extension take it as a parameter; \<open>posix_join\<close> below is the \<^verbatim>\<open>path.join\<close> of a
  POSIX host, segment by segment as \<^verbatim>\<open>normalizeString\<close> works: empty segments and \<^verbatim>\<open>.\<close>
  are dropped, \<^verbatim>\<open>..\<close> removes the segment before it, and is kept where there is none
  and the path is relative.
\<close>

record pathmod =
  path_join :: "string list \<Rightarrow> string"
  path_resolve :: "string \<Rightarrow> string"
  path_relative :: "string \<Rightarrow> string \<Rightarrow> string"
  path_dirname :: "string \<Rightarrow> string"
  path_basename :: "string \<Rightarrow> string"
  path_sep :: string

fun join_slash :: "string list \<Rightarrow> string" where
  "join_slash [] = []"
| "join_slash [x] = x"
| "join_slash (x # y # ys) = x @ ''/'' @ join_slash (y # ys)"

text \<open>The stack of segments has its last segment first.\<close>

definition segment_step :: "bool \<Rightarrow> string list \<Rightarrow> string \<Rightarrow> string list" where
  "segment_step allowAboveRoot st seg =
     (if seg = [] \<or> seg = ''.'' then st
      else if seg = ''..'' then
        (case st of
           [] \<Rightarrow> if allowAboveRoot then [''..''] else []
         | t # ts \<Rightarrow> if t = ''..'' then (if allowAboveRoot then ''..'' # st else st) else ts)
      else seg # st)"

definition normalizeString :: "string \<Rightarrow> bool \<Rightarrow> string" where
  "normalizeString path allowAboveRoot =
     join_slash (rev (foldl (segment_step allowAboveRoot) [] (split_on CHR ''/'' path)))"

definition posix_normalize :: "string \<Rightarrow> string" where
  "posix_normalize path =
     (if path = [] then ''.''
      else
        let isAbsolute = (hd path = CHR ''/'');
            trailingSeparator = (last path = CHR ''/'');
            p = normalizeString path (\<not> isAbsolute)
        in if p = [] then (if isAbsolute then ''/'' else if trailingSeparator then ''./'' else ''.'')
           else (if isAbsolute then ''/'' else []) @ p @ (if trailingSeparator then ''/'' else []))"

definition posix_join :: "string list \<Rightarrow> string" where
  "posix_join args =
     (let parts = filter (\<lambda>arg. arg \<noteq> []) args
      in if parts = [] then ''.'' else posix_normalize (join_slash parts))"

text \<open>
  \<^verbatim>\<open>path.resolve(p)\<close> with one argument, for the working directory \<open>cwd\<close>: the
  argument, and the working directory in front of it unless the argument is absolute, are
  normalised; the result has no trailing slash.
\<close>

definition posix_resolve :: "string \<Rightarrow> string \<Rightarrow> string" where
  "posix_resolve cwd p =
     (let r1 = (if p = [] then [] else p @ ''/'');
          abs1 = (p \<noteq> [] \<and> hd p = CHR ''/'');
          r2 = (if abs1 \<or> cwd = [] then r1 else cwd @ ''/'' @ r1);
          resolvedAbsolute = (abs1 \<or> (cwd \<noteq> [] \<and> hd cwd = CHR ''/''));
          n = normalizeString r2 (\<not> resolvedAbsolute)
      in if resolvedAbsolute then ''/'' @ n else if n \<noteq> [] then n else ''.'')"

text \<open>The non-empty segments of a path.\<close>

definition segments :: "string \<Rightarrow> string list" where
  "segments p = filter (\<lambda>seg. seg \<noteq> []) (split_on CHR ''/'' p)"

fun common_prefix_length :: "'a list \<Rightarrow> 'a list \<Rightarrow> nat" where
  "common_prefix_length (x # xs) (y # ys) = (if x = y then 1 + common_prefix_length xs ys else 0)"
| "common_prefix_length _ _ = 0"

text \<open>
  \<^verbatim>\<open>path.relative(from, to)\<close> for an absolute working directory: both are resolved, and
  the result climbs with \<^verbatim>\<open>..\<close> from \<open>from\<close> to the last common directory and descends to
  \<open>to\<close>.
\<close>

definition posix_relative :: "string \<Rightarrow> string \<Rightarrow> string \<Rightarrow> string" where
  "posix_relative cwd from to =
     (if from = to then []
      else
        let f = posix_resolve cwd from; t = posix_resolve cwd to in
        if f = t then []
        else
          let fs = segments f; ts = segments t; c = common_prefix_length fs ts
          in join_slash (replicate (length fs - c) ''..'' @ drop c ts))"

text \<open>
  \<^verbatim>\<open>path.dirname(p)\<close>: behind the first character, trailing slashes and the last
  segment are cut off together with one slash in front of them.
\<close>

definition posix_dirname :: "string \<Rightarrow> string" where
  "posix_dirname p =
     (if p = [] then ''.''
      else
        let hasRoot = (hd p = CHR ''/'');
            r1 = dropWhile (\<lambda>c. c = CHR ''/'') (rev (tl p));
            r2 = dropWhile (\<lambda>c. c \<noteq> CHR ''/'') r1
        in if r2 = [] then (if hasRoot then ''/'' else ''.'')
           else if hasRoot \<and> tl r2 = [] then ''//''
           else hd p # rev (tl r2))"

text \<open>\<^verbatim>\<open>path.basename(p)\<close> with one argument: the last non-empty segment.\<close>

definition posix_basename :: "string \<Rightarrow> string" where
  "posix_basename p = (case segments p of [] \<Rightarrow> [] | seg # segs \<Rightarrow> last (seg # segs))"

definition posix :: "string \<Rightarrow> pathmod" where
  "posix cwd =
     \<lparr> path_join = posix_join, path_resolve = posix_resolve cwd,
       path_relative = posix_relative cwd, path_dirname = posix_dirname,
       path_basename = posix_basename, path_sep = ''/'' \<rparr>"

section \<open>resolveHtmlPathByHugoList (extension.ts, lines 868-927)\<close>

datatype error =
    HugoListEmpty
  | HugoListInvalidFormat
  | HugoPermalinkMissing string
  | HtmlNotGenerated string
  | TypeError_undefined
  | TypeError_invalid_url string
  | NoMarkdown
  | NotMarkdown
  | NoWorkspace
  | NotContent
  | HugoInvalid string
  | HugoNotFound
  | InstallCanceled
  | InstallFailed
  | UnsupportedPlatform string
  | UnsupportedArch string
  | DownloadFailed string
  | HugoBinaryNotFound string
  | HugoNotExecutable
  | HugoCommandFailed string
  | FsError string
  | LatestVersionFailed

text \<open>
  \<^verbatim>\<open>s.trim()\<close> removes white space and line terminators at both ends; of these the
  code units below 256 are tab, line feed, vertical tab, form feed, carriage return,
  space and the no-break space.
\<close>

definition js_whitespace :: "char \<Rightarrow> bool" where
  "js_whitespace c \<longleftrightarrow> (of_char c :: nat) \<in> {9, 10, 11, 12, 13, 32, 160}"

definition js_trim :: "string \<Rightarrow> string" where
  "js_trim s = rev (dropWhile js_whitespace (rev (dropWhile js_whitespace s)))"

text \<open>\<^verbatim>\<open>xs.indexOf(x)\<close>: the first index of \<open>x\<close>, \<open>None\<close> for -1.\<close>

fun index_of :: "'a \<Rightarrow> 'a list \<Rightarrow> nat option" where
  "index_of x [] = None"
| "index_of x (y # ys) =
     (if x = y then Some 0 else (case index_of x ys of None \<Rightarrow> None | Some i \<Rightarrow> Some (i + 1)))"

text \<open>\<^verbatim>\<open>p.replace(/\\/g, "/")\<close>.\<close>

definition normalize_backslashes :: "string \<Rightarrow> string" where
  "normalize_backslashes p = map (\<lambda>c. if c = CHR 0x5C then CHR ''/'' else c) p"

text \<open>
  The loop over the data rows. Reading a column past the end of a row gives
  \<^verbatim>\<open>undefined\<close>: \<open>normalize\<close> then calls \<^verbatim>\<open>replace\<close> on it, which throws a TypeError,
  while an \<^verbatim>\<open>undefined\<close> permalink is caught by the test \<^verbatim>\<open>!permalink\<close> like the empty
  string. The loop returns the permalink of the row it stops at.
\<close>

fun scan_rows :: "nat \<Rightarrow> nat \<Rightarrow> string \<Rightarrow> string \<Rightarrow> string list \<Rightarrow> error + string" where
  "scan_rows idxPath idxPermalink targetPath contentRelPath [] =
     Inl (HtmlNotGenerated contentRelPath)"
| "scan_rows idxPath idxPermalink targetPath contentRelPath (line # rest) =
     (let cols = split_on CHR '','' line in
      if length cols \<le> idxPath then Inl TypeError_undefined
      else if normalize_backslashes (cols ! idxPath) \<noteq> targetPath then
        scan_rows idxPath idxPermalink targetPath contentRelPath rest
      else if length cols \<le> idxPermalink \<or> cols ! idxPermalink = [] then
        Inl (HugoPermalinkMissing contentRelPath)
      else Inr (cols ! idxPermalink))"

text \<open>
  Steps 1 to 3 of the function: \<open>stdout\<close> is what \<^verbatim>\<open>hugo list all\<close> printed (a failing
  command rejects before the function reads anything); the result is the permalink of
  the row for \<open>contentRelPath\<close>.
\<close>

definition find_permalink :: "string \<Rightarrow> string \<Rightarrow> error + string" where
  "find_permalink stdout contentRelPath =
     (let lines = split_on CHR 0x0A (js_trim stdout) in
      if length lines < 2 then Inl HugoListEmpty
      else
        let headers = split_on CHR '','' (hd lines) in
        (case (index_of ''path'' headers, index_of ''permalink'' headers) of
           (Some idxPath, Some idxPermalink) \<Rightarrow>
             scan_rows idxPath idxPermalink
               (normalize_backslashes (''content/'' @ contentRelPath)) contentRelPath (tl lines)
         | _ \<Rightarrow> Inl HugoListInvalidFormat))"

text \<open>
  Step 4, reached with the permalink of the row found. \<open>url_pathname\<close> stands for
  \<^verbatim>\<open>new URL(s).pathname\<close>, \<open>None\<close> where the constructor throws.
\<close>

definition resolveHtmlPathByHugoList ::
  "pathmod \<Rightarrow> (string \<Rightarrow> string option) \<Rightarrow> string \<Rightarrow> string \<Rightarrow> string \<Rightarrow> error + string" where
  "resolveHtmlPathByHugoList P url_pathname stdout outDir contentRelPath =
     (case find_permalink stdout contentRelPath of
        Inl e \<Rightarrow> Inl e
      | Inr permalink \<Rightarrow>
          (case url_pathname permalink of
             None \<Rightarrow> Inl (TypeError_invalid_url permalink)
           | Some pathname \<Rightarrow>
               Inr (path_join P [outDir,
                      path_join P [dropWhile (\<lambda>c. c = CHR ''/'') pathname, ''index.html'']])))"

text \<open>
  A stand-in for \<^verbatim>\<open>new URL(s).pathname\<close> in examples: behind the first \<^verbatim>\<open>://\<close> the text
  from the first slash on, or \<^verbatim>\<open>/\<close> when there is none; no value without \<^verbatim>\<open>://\<close>. It
  agrees with the URL standard on \<^verbatim>\<open>http\<close> URLs that have no query, fragment, dot segment
  or character to escape.
\<close>

fun after_scheme :: "string \<Rightarrow> string option" where
  "after_scheme [] = None"
| "after_scheme (c # cs) =
     (if prefix ''://'' (c # cs) then Some (drop 3 (c # cs)) else after_scheme cs)"

definition example_url_pathname :: "string \<Rightarrow> string option" where
  "example_url_pathname s =
     (case after_scheme s of
        None \<Rightarrow> None
      | Some r \<Rightarrow>
          (let p = dropWhile (\<lambda>c. c \<noteq> CHR ''/'') r in Some (if p = [] then ''/'' else p)))"




section \<open>The extension host\<close>

text \<open>
  Everything outside the extension is a field of the record \<open>world\<close>: the platform, the
  settings, the editor, the files, and the answers of the commands, of the network
  and of the user. Files are kept as a list of pairs of a path and a content. Every
  action on the outside is appended to \<open>trace\<close>, and so is every call of
  \<open>installHugoInternal\<close>.
\<close>

datatype fetched =
    DownloadError
  | ExtractError
  | NoBinary
  | Binary string "string option"

datatype event =
    ExecVersion string
  | ExecBuild string "string list"
  | ExecList string "string list"
  | HttpGetLatest
  | CallInstallHugoInternal string bool
  | Download string string
  | MkdirSync string
  | WriteFileSync string
  | CopyFileSync string
  | RmSync string
  | AskInstall
  | AskUpdate
  | Message string
  | ConsoleLog string
  | PanelCreate string
  | PanelSetTitle string
  | PanelReveal
  | PanelSetHtml
  | OnDidSaveTextDocument string

record document =
  doc_languageId :: string
  doc_fsPath :: string
  doc_text :: string

record panel =
  panel_title :: string
  panel_html :: string

record world =
  process_platform :: string
  process_arch :: string
  pathmod_of :: pathmod
  globalStorage :: string
  cfg_hugoPath :: "string option"
  cfg_hugoVersion :: "string option"
  cfg_autoDownload :: "bool option"
  cfg_useExtended :: "bool option"
  activeTextEditor :: "document option"
  workspaceFolder :: "string option"
  previewPanel :: "panel option"
  statusItem :: "string option"
  isHugoServerRunning :: bool
  version_stdout :: "string \<Rightarrow> string option"
  fs_files :: "(string \<times> string) list"
  fs_fails :: "string \<Rightarrow> bool"
  remote :: "string \<Rightarrow> fetched"
  latest_tag :: "string option"
  answer_install :: bool
  answer_update :: bool
  build_result :: "error + (string \<times> string) list"
  list_result :: "error + string"
  asWebviewUri :: "string \<Rightarrow> string"
  url_pathname_of :: "string \<Rightarrow> string option"
  trace :: "event list"

definition emit :: "event \<Rightarrow> world \<Rightarrow> world" where
  "emit e w = w\<lparr>trace := trace w @ [e]\<rparr>"

definition existsSync :: "world \<Rightarrow> string \<Rightarrow> bool" where
  "existsSync w p \<longleftrightarrow> p \<in> fst ` set (fs_files w)"

definition write_file :: "string \<Rightarrow> string \<Rightarrow> (string \<times> string) list \<Rightarrow> (string \<times> string) list" where
  "write_file p content fs = (p, content) # filter (\<lambda>(q, c). q \<noteq> p) fs"

text \<open>\<^verbatim>\<open>(cfg.get<string>(key) || "").trim()\<close>.\<close>

definition setting_trimmed :: "string option \<Rightarrow> string" where
  "setting_trimmed v = js_trim (case v of None \<Rightarrow> [] | Some s \<Rightarrow> s)"

text \<open>\<^verbatim>\<open>cfg.get<boolean>(key) ?? true\<close>.\<close>

definition setting_or_true :: "bool option \<Rightarrow> bool" where
  "setting_or_true v = (case v of None \<Rightarrow> True | Some b \<Rightarrow> b)"

subsection \<open>checkHugo, getHugoBinaryName, mapPlatform, mapArch (lines 331-355)\<close>

definition checkHugo :: "string \<Rightarrow> world \<Rightarrow> bool \<times> world" where
  "checkHugo cmd w = (version_stdout w cmd \<noteq> None, emit (ExecVersion cmd) w)"

definition getHugoBinaryName :: "world \<Rightarrow> string" where
  "getHugoBinaryName w = (if process_platform w = ''win32'' then ''hugo.exe'' else ''hugo'')"

datatype Platform = Windows | Darwin | Linux

fun platform_name :: "Platform \<Rightarrow> string" where
  "platform_name Windows = ''windows''"
| "platform_name Darwin = ''darwin''"
| "platform_name Linux = ''linux''"

datatype Arch = Amd64 | Arm64

fun arch_name :: "Arch \<Rightarrow> string" where
  "arch_name Amd64 = ''amd64''"
| "arch_name Arm64 = ''arm64''"

definition mapPlatform :: "world \<Rightarrow> error + Platform" where
  "mapPlatform w =
     (let p = process_platform w in
      if p = ''win32'' then Inr Windows
      else if p = ''darwin'' then Inr Darwin
      else if p = ''linux'' then Inr Linux
      else Inl (UnsupportedPlatform p))"

definition mapArch :: "world \<Rightarrow> error + Arch" where
  "mapArch w =
     (let a = process_arch w in
      if a = ''x64'' then Inr Amd64
      else if a = ''arm64'' then Inr Arm64
      else Inl (UnsupportedArch a))"

subsection \<open>installHugoInternal (lines 379-448)\<close>

definition archive_file_name :: "bool \<Rightarrow> string \<Rightarrow> Platform \<Rightarrow> Arch \<Rightarrow> string" where
  "archive_file_name useExtended version platform arch =
     (let isWin = (platform = Windows);
          flavor = (if useExtended then ''hugo_extended'' else ''hugo'')
      in if isWin then
           flavor @ ''_'' @ version @ ''_'' @ platform_name platform @ ''-'' @ arch_name arch @ ''.zip''
         else
           flavor @ ''_'' @ version @ ''_'' @ platform_name platform @ ''-'' @ arch_name arch @
             ''.tar.gz'')"

definition mkdirSync :: "string \<Rightarrow> world \<Rightarrow> (error + unit) \<times> world" where
  "mkdirSync p w =
     (if fs_fails w p then (Inl (FsError p), emit (MkdirSync p) w)
      else (Inr (), emit (MkdirSync p) w))"

text \<open>
  \<open>rmrf\<close> (lines 490-493): when something exists at the path, \<^verbatim>\<open>fs.rmSync\<close> removes it
  with all that lies below it, or throws. The model keeps no directories: something
  exists at a path when a file is kept at it or below it.
\<close>

definition at_or_below :: "pathmod \<Rightarrow> string \<Rightarrow> string \<Rightarrow> bool" where
  "at_or_below P dir q \<longleftrightarrow> q = dir \<or> prefix (dir @ path_sep P) q"

definition rmrf :: "string \<Rightarrow> world \<Rightarrow> (error + unit) \<times> world" where
  "rmrf p w =
     (if filter (\<lambda>(q, c). at_or_below (pathmod_of w) p q) (fs_files w) = [] then (Inr (), w)
      else if fs_fails w p then (Inl (FsError p), emit (RmSync p) w)
      else (Inr (), (emit (RmSync p) w)
              \<lparr>fs_files := filter (\<lambda>(q, c). \<not> at_or_below (pathmod_of w) p q) (fs_files w)\<rparr>))"

text \<open>
  \<^verbatim>\<open>fs.copyFileSync(found, binPath)\<close>, where \<open>content\<close> is what the file found holds:
  afterwards the destination holds it too.
\<close>

definition copyFileSync :: "string \<Rightarrow> string \<Rightarrow> world \<Rightarrow> (error + unit) \<times> world" where
  "copyFileSync p content w =
     (if fs_fails w p then (Inl (FsError p), emit (CopyFileSync p) w)
      else (Inr (), (emit (CopyFileSync p) w)\<lparr>fs_files := write_file p content (fs_files w)\<rparr>))"

text \<open>
  The answer of the release server for a URL is \<open>remote w url\<close>: the download fails, or
  the archive cannot be unpacked, or it holds no file named like the binary, or it
  holds the binary with the given content, which prints the given text when it is run
  with \<^verbatim>\<open>version\<close> (\<open>None\<close>: it cannot be run). The archive and the files unpacked from it
  are not kept in \<open>fs_files\<close>. Errors of \<^verbatim>\<open>chmodSync\<close> are ignored by the code.
\<close>

definition installHugoInternal :: "string \<Rightarrow> bool \<Rightarrow> world \<Rightarrow> (error + unit) \<times> world" where
  "installHugoInternal version useExtended w0 =
     (let w = emit (CallInstallHugoInternal version useExtended) w0 in
      (case mapPlatform w of
         Inl e \<Rightarrow> (Inl e, w)
       | Inr platform \<Rightarrow>
      (case mapArch w of
         Inl e \<Rightarrow> (Inl e, w)
       | Inr arch \<Rightarrow>
      (let store = globalStorage w;
           binDir = path_join (pathmod_of w) [store, ''bin''];
           tmpDir = path_join (pathmod_of w) [store, ''tmp'']
       in
      (case mkdirSync binDir w of
         (Inl e, w1) \<Rightarrow> (Inl e, w1)
       | (Inr u, w1) \<Rightarrow>
      (case mkdirSync tmpDir w1 of
         (Inl e, w2) \<Rightarrow> (Inl e, w2)
       | (Inr u, w2) \<Rightarrow>
      (let binPath = path_join (pathmod_of w) [binDir, getHugoBinaryName w];
           fileName = archive_file_name useExtended version platform arch;
           url = ''https://github.com/gohugoio/hugo/releases/download/v'' @ version @ ''/'' @
                   fileName;
           archivePath = path_join (pathmod_of w) [tmpDir, fileName];
           w3 = emit (Download url archivePath) w2
       in
       if remote w url = DownloadError then (Inl (DownloadFailed url), w3)
       else
      (let extractDir = path_join (pathmod_of w) [tmpDir, ''extract''] in
      (case rmrf extractDir w3 of
         (Inl e, w4) \<Rightarrow> (Inl e, w4)
       | (Inr u, w4) \<Rightarrow>
      (case mkdirSync extractDir w4 of
         (Inl e, w5) \<Rightarrow> (Inl e, w5)
       | (Inr u, w5) \<Rightarrow>
      (case remote w url of
         DownloadError \<Rightarrow> (Inl (DownloadFailed url), w5)
       | ExtractError \<Rightarrow> (Inl (FsError archivePath), w5)
       | NoBinary \<Rightarrow> (Inl (HugoBinaryNotFound fileName), w5)
       | Binary content out \<Rightarrow>
      (case copyFileSync binPath content w5 of
         (Inl e, w6) \<Rightarrow> (Inl e, w6)
       | (Inr u, w6) \<Rightarrow>
      (case checkHugo binPath (w6\<lparr>version_stdout := (version_stdout w6)(binPath := out)\<rparr>) of
         (True, w7) \<Rightarrow> (Inr (), w7)
       | (False, w7) \<Rightarrow> (Inl HugoNotExecutable, w7))))))))))))))"

subsection \<open>getLatestHugoVersion, installHugo (lines 357-377, 536-555)\<close>

text \<open>\<^verbatim>\<open>json.tag_name.replace(/^v/, "")\<close>; a failing request or an answer without the tag rejects.\<close>

definition getLatestHugoVersion :: "world \<Rightarrow> (error + string) \<times> world" where
  "getLatestHugoVersion w =
     (case latest_tag w of
        None \<Rightarrow> (Inl LatestVersionFailed, emit HttpGetLatest w)
      | Some tag \<Rightarrow>
          (Inr (if prefix ''v'' tag then drop 1 tag else tag), emit HttpGetLatest w))"

definition installHugo :: "world \<Rightarrow> (error + unit) \<times> world" where
  "installHugo w =
     (let version = setting_trimmed (cfg_hugoVersion w);
          useExtended = setting_or_true (cfg_useExtended w)
      in if version \<noteq> [] then installHugoInternal version useExtended w
         else
           (case getLatestHugoVersion w of
              (Inr latest, w1) \<Rightarrow> installHugoInternal latest useExtended w1
            | (Inl e, w1) \<Rightarrow>
                installHugoInternal ''0.152.2'' useExtended
                  (emit (Message ''warn.hugoLatestVersionFailed'') w1)))"

subsection \<open>ensureHugo (lines 252-300)\<close>

definition hugoBin_of :: "world \<Rightarrow> string" where
  "hugoBin_of w =
     path_join (pathmod_of w)
       [path_join (pathmod_of w) [globalStorage w, ''bin''], getHugoBinaryName w]"

text \<open>\<^verbatim>\<open>fs.existsSync(hugoBin) && (await checkHugo(hugoBin))\<close>: the command runs only when the file exists.\<close>

definition exists_and_runs :: "string \<Rightarrow> world \<Rightarrow> bool \<times> world" where
  "exists_and_runs p w = (if existsSync w p then checkHugo p w else (False, w))"

definition ensureHugo :: "bool \<Rightarrow> world \<Rightarrow> (error + string) \<times> world" where
  "ensureHugo forceInstall w =
     (let userPath = setting_trimmed (cfg_hugoPath w);
          autoDownload = setting_or_true (cfg_autoDownload w)
      in
      if userPath \<noteq> [] then
        (case checkHugo userPath w of
           (True, w1) \<Rightarrow> (Inr userPath, w1)
         | (False, w1) \<Rightarrow> (Inl (HugoInvalid userPath), w1))
      else
        (case (if \<not> forceInstall then checkHugo ''hugo'' w else (False, w)) of
           (True, w1) \<Rightarrow> (Inr ''hugo'', w1)
         | (False, w1) \<Rightarrow>
        (let hugoBin = hugoBin_of w1 in
        (case (if \<not> forceInstall then exists_and_runs hugoBin w1 else (False, w1)) of
           (True, w2) \<Rightarrow> (Inr hugoBin, w2)
         | (False, w2) \<Rightarrow>
        (if \<not> autoDownload \<and> \<not> forceInstall then (Inl HugoNotFound, w2)
         else
           (let w3 = emit AskInstall w2 in
            if \<not> answer_install w3 then (Inl InstallCanceled, w3)
            else
              (case installHugo w3 of
                 (Inl e, w4) \<Rightarrow> (Inl e, w4)
               | (Inr u, w4) \<Rightarrow>
                   (case exists_and_runs hugoBin w4 of
                      (True, w5) \<Rightarrow> (Inr hugoBin, w5)
                    | (False, w5) \<Rightarrow> (Inl InstallFailed, w5)))))))))"

subsection \<open>resolveInstalledHugo, getLocalHugoVersion (lines 495-534)\<close>

definition resolveInstalledHugo :: "world \<Rightarrow> string option \<times> world" where
  "resolveInstalledHugo w =
     (let userPath = setting_trimmed (cfg_hugoPath w) in
      (case (if userPath \<noteq> [] then checkHugo userPath w else (False, w)) of
         (True, w1) \<Rightarrow> (Some userPath, w1)
       | (False, w1) \<Rightarrow>
      (case checkHugo ''hugo'' w1 of
         (True, w2) \<Rightarrow> (Some ''hugo'', w2)
       | (False, w2) \<Rightarrow>
      (case exists_and_runs (hugoBin_of w2) w2 of
         (True, w3) \<Rightarrow> (Some (hugoBin_of w2), w3)
       | (False, w3) \<Rightarrow> (None, w3)))))"

text \<open>
  \<^verbatim>\<open>stdout.match(/v(\d+\.\d+\.\d+)/)\<close>: the first \<^verbatim>\<open>v\<close> that is followed by three groups of
  digits with dots between them; the groups are as long as they can be.
\<close>

definition is_digit :: "char \<Rightarrow> bool" where
  "is_digit c \<longleftrightarrow> 48 \<le> (of_char c :: nat) \<and> (of_char c :: nat) \<le> 57"

definition version_at :: "string \<Rightarrow> string option" where
  "version_at s =
     (let d1 = takeWhile is_digit s; r1 = dropWhile is_digit s in
      if d1 = [] \<or> \<not> prefix ''.'' r1 then None
      else
        let d2 = takeWhile is_digit (drop 1 r1); r2 = dropWhile is_digit (drop 1 r1) in
        if d2 = [] \<or> \<not> prefix ''.'' r2 then None
        else
          let d3 = takeWhile is_digit (drop 1 r2) in
          if d3 = [] then None else Some (d1 @ ''.'' @ d2 @ ''.'' @ d3))"

fun match_version :: "string \<Rightarrow> string option" where
  "match_version [] = None"
| "match_version (c # cs) =
     (if c = CHR ''v'' then
        (case version_at cs of Some v \<Rightarrow> Some v | None \<Rightarrow> match_version cs)
      else match_version cs)"

definition getLocalHugoVersion :: "string \<Rightarrow> world \<Rightarrow> string option \<times> world" where
  "getLocalHugoVersion hugoPath w =
     (case version_stdout w hugoPath of
        None \<Rightarrow> (None, emit (ExecVersion hugoPath) w)
      | Some stdout \<Rightarrow> (match_version stdout, emit (ExecVersion hugoPath) w))"

subsection \<open>ensurePinnedHugoOnStartup (lines 302-329)\<close>

definition ensurePinnedHugoOnStartup :: "world \<Rightarrow> (error + unit) \<times> world" where
  "ensurePinnedHugoOnStartup w =
     (let pinned = setting_trimmed (cfg_hugoVersion w) in
      if pinned = [] then (Inr (), w)
      else
        (case resolveInstalledHugo w of
           (None, w1) \<Rightarrow> installHugoInternal pinned (setting_or_true (cfg_useExtended w)) w1
         | (Some hugoPath, w1) \<Rightarrow>
             (case getLocalHugoVersion hugoPath w1 of
                (localVer, w2) \<Rightarrow>
                  if localVer = None \<or> localVer \<noteq> Some pinned then
                    installHugoInternal pinned (setting_or_true (cfg_useExtended w)) w2
                  else (Inr (), w2))))"

subsection \<open>updateHugoStatus, checkHugoUpdateOnStartup (lines 567-634, 858-866)\<close>

definition isHugoProject :: "world \<Rightarrow> string \<Rightarrow> bool" where
  "isHugoProject w workspace \<longleftrightarrow>
     (\<exists>f \<in> set [''config.toml'', ''config.yaml'', ''config.yml'', ''hugo.toml''].
        existsSync w (path_join (pathmod_of w) [workspace, f]))"

text \<open>The status bar item: its text while it is shown, \<open>None\<close> while it is hidden.\<close>

definition updateHugoStatus :: "world \<Rightarrow> world" where
  "updateHugoStatus w =
     (case workspaceFolder w of
        None \<Rightarrow> w\<lparr>statusItem := None\<rparr>
      | Some workspace \<Rightarrow>
          if workspace = [] \<or> \<not> isHugoProject w workspace then w\<lparr>statusItem := None\<rparr>
          else
            (case resolveInstalledHugo w of
               (None, w1) \<Rightarrow> w1\<lparr>statusItem := Some ''$(warning) Hugo Install Needed''\<rparr>
             | (Some hugoPath, w1) \<Rightarrow>
                 (case getLocalHugoVersion hugoPath w1 of
                    (ver, w2) \<Rightarrow>
                      (let versionText =
                             (case ver of None \<Rightarrow> ''Detected''
                              | Some v \<Rightarrow> if v = [] then ''Detected'' else v)
                       in w2\<lparr>statusItem :=
                              Some ((if isHugoServerRunning w2 then ''$(sync~spin) Hugo ''
                                     else ''$(rocket) Hugo '') @ versionText)\<rparr>))))"

text \<open>\<open>num\<close> is the conversion \<^verbatim>\<open>Number\<close> that \<open>isNewer\<close> applies to the components.\<close>

definition checkHugoUpdateOnStartup ::
  "(string \<Rightarrow> ('v::{linorder,zero}) jsnumber) \<Rightarrow> world \<Rightarrow> (error + unit) \<times> world" where
  "checkHugoUpdateOnStartup num w =
     (let pinnedVersion = setting_trimmed (cfg_hugoVersion w) in
      if pinnedVersion \<noteq> [] then
        (Inr (), emit (ConsoleLog (''Hugo version is pinned to '' @ pinnedVersion @
                                    ''. Skipping update check.'')) w)
      else
        (case resolveInstalledHugo w of
           (None, w1) \<Rightarrow> (Inr (), w1)
         | (Some hugoPath, w1) \<Rightarrow>
        (case getLocalHugoVersion hugoPath w1 of
           (None, w2) \<Rightarrow> (Inr (), w2)
         | (Some localVer, w2) \<Rightarrow>
        (case getLatestHugoVersion w2 of
           (Inl e, w3) \<Rightarrow> (Inl e, w3)
         | (Inr latestVer, w3) \<Rightarrow>
        (if \<not> isNewer num latestVer localVer then (Inr (), w3)
         else
           (let w4 = emit AskUpdate w3 in
            if \<not> answer_update w4 then (Inr (), w4)
            else
              (case installHugoInternal latestVer (setting_or_true (cfg_useExtended w)) w4 of
                 (Inl e, w5) \<Rightarrow> (Inl e, w5)
               | (Inr u, w5) \<Rightarrow>
                   (Inr (), updateHugoStatus (emit (Message ''info.hugoUpdated'') w5)))))))))"

subsection \<open>Reading the trace\<close>

fun install_calls :: "event list \<Rightarrow> (string \<times> bool) list" where
  "install_calls [] = []"
| "install_calls (CallInstallHugoInternal v e # es) = (v, e) # install_calls es"
| "install_calls (_ # es) = install_calls es"

fun downloads :: "event list \<Rightarrow> (string \<times> string) list" where
  "downloads [] = []"
| "downloads (Download url dest # es) = (url, dest) # downloads es"
| "downloads (_ # es) = downloads es"

text \<open>
  A host for examples: Linux on x64 with the \<^verbatim>\<open>path\<close> module of POSIX, no setting
  changed, no editor open, \<^verbatim>\<open>hugo\<close> not on the PATH, and a release server that has an
  archive for version 0.152.2.
\<close>

definition example_world :: world where
  "example_world =
     \<lparr> process_platform = ''linux'', process_arch = ''x64'', pathmod_of = posix ''/home/u'',
       globalStorage = ''/store'',
       cfg_hugoPath = None, cfg_hugoVersion = None, cfg_autoDownload = None,
       cfg_useExtended = None,
       activeTextEditor = None, workspaceFolder = None, previewPanel = None,
       statusItem = None, isHugoServerRunning = False,
       version_stdout = (\<lambda>cmd. None),
       fs_files = [], fs_fails = (\<lambda>p. False),
       remote = (\<lambda>url.
         if url = ''https://github.com/gohugoio/hugo/releases/download/v0.152.2/'' @
                  ''hugo_extended_0.152.2_linux-amd64.tar.gz''
         then Binary ''ELF'' (Some ''hugo v0.152.2+extended linux/amd64'')
         else DownloadError),
       latest_tag = Some ''v0.152.2'',
       answer_install = True, answer_update = True,
       build_result = Inr [], list_result = Inr [],
       asWebviewUri = (\<lambda>p. ''https://file+.vscode-resource.vscode-cdn.net'' @ p),
       url_pathname_of = example_url_pathname,
       trace = [] \<rparr>"

text \<open>
  \<open>quiet w w'\<close>: from \<open>w\<close> to \<open>w'\<close> nothing but the trace has changed, and the trace has
  gained no call of \<open>installHugoInternal\<close> and no download.
\<close>

definition quiet :: "world \<Rightarrow> world \<Rightarrow> bool" where
  "quiet w w' \<longleftrightarrow>
     w' = w\<lparr>trace := trace w'\<rparr> \<and> install_calls (trace w') = install_calls (trace w) \<and>
     downloads (trace w') = downloads (trace w)"

text \<open>
  The condition of claim C3: no Hugo binary can be resolved, or the version the resolved
  binary reports is not the pinned one.
\<close>

definition pin_mismatch :: "world \<Rightarrow> bool" where
  "pin_mismatch w =
     (case resolveInstalledHugo w of
        (None, w1) \<Rightarrow> True
      | (Some hugoPath, w1) \<Rightarrow>
          fst (getLocalHugoVersion hugoPath w1) \<noteq> Some (setting_trimmed (cfg_hugoVersion w)))"

section \<open>openPreview (extension.ts, lines 81-207)\<close>

definition writeFileSync :: "string \<Rightarrow> string \<Rightarrow> world \<Rightarrow> (error + unit) \<times> world" where
  "writeFileSync p content w =
     (if fs_fails w p then (Inl (FsError p), emit (WriteFileSync p) w)
      else (Inr (), (emit (WriteFileSync p) w)\<lparr>fs_files := write_file p content (fs_files w)\<rparr>))"

text \<open>What the first part of \<open>openPreview\<close> hands to the second.\<close>

record prepared =
  prep_hugo :: string
  prep_workspace :: string
  prep_contentDir :: string
  prep_outDir :: string
  prep_relPath :: string
  prep_docPath :: string
  prep_dstMdPath :: string

text \<open>
  The test of lines 116-119, for the resolved paths: the document is the content
  directory itself or lies under it.
\<close>

definition under_content :: "pathmod \<Rightarrow> string \<Rightarrow> string \<Rightarrow> bool" where
  "under_content P contentRoot docPath \<longleftrightarrow>
     prefix (path_resolve P contentRoot @ path_sep P) (path_resolve P docPath) \<or>
     path_resolve P docPath = path_resolve P contentRoot"

text \<open>Lines 81-128: the checks, the temporary directories and the copy of the document.\<close>

definition prepare :: "world \<Rightarrow> (error + prepared) \<times> world" where
  "prepare w =
     (case activeTextEditor w of
        None \<Rightarrow> (Inl NoMarkdown, w)
      | Some doc \<Rightarrow>
     (if doc_languageId doc \<noteq> ''markdown'' then (Inl NotMarkdown, w)
      else
     (case workspaceFolder w of
        None \<Rightarrow> (Inl NoWorkspace, w)
      | Some workspace \<Rightarrow>
     (if workspace = [] then (Inl NoWorkspace, w)
      else
     (case ensureHugo False w of
        (Inl e, w1) \<Rightarrow> (Inl e, w1)
      | (Inr hugo, w1) \<Rightarrow>
     (let P = pathmod_of w1;
          storeRoot = globalStorage w1;
          runRoot = path_join P [storeRoot, ''run''];
          contentDir = path_join P [runRoot, ''content''];
          outDir = path_join P [runRoot, ''public'']
      in
     (case mkdirSync contentDir w1 of
        (Inl e, w2) \<Rightarrow> (Inl e, w2)
      | (Inr u, w2) \<Rightarrow>
     (case mkdirSync outDir w2 of
        (Inl e, w3) \<Rightarrow> (Inl e, w3)
      | (Inr u, w3) \<Rightarrow>
     (let contentRoot = path_join P [workspace, ''content''];
          docPath = doc_fsPath doc
      in
      if \<not> under_content P contentRoot docPath then (Inl NotContent, w3)
      else
     (let relPath = path_relative P contentRoot docPath;
          dstMdPath = path_join P [contentDir, relPath]
      in
     (case mkdirSync (path_dirname P dstMdPath) w3 of
        (Inl e, w4) \<Rightarrow> (Inl e, w4)
      | (Inr u, w4) \<Rightarrow>
     (case writeFileSync dstMdPath (doc_text doc) w4 of
        (Inl e, w5) \<Rightarrow> (Inl e, w5)
      | (Inr u, w5) \<Rightarrow>
          (Inr \<lparr> prep_hugo = hugo, prep_workspace = workspace, prep_contentDir = contentDir,
                 prep_outDir = outDir, prep_relPath = relPath, prep_docPath = docPath,
                 prep_dstMdPath = dstMdPath \<rparr>, w5)))))))))))))"

text \<open>
  \<^verbatim>\<open>html.replace(/<html([^>]*)>/i, ...)\<close>: the first \<^verbatim>\<open><html\<close>, in any case of the letters,
  that is followed by a \<^verbatim>\<open>></\<close> gets the attribute \<^verbatim>\<open>hugo-preview="true"\<close> unless its
  attributes have one.
\<close>

definition lower_ascii :: "char \<Rightarrow> char" where
  "lower_ascii c =
     (let n = (of_char c :: nat) in if 65 \<le> n \<and> n \<le> 90 then char_of (n + 32) else c)"

fun contains :: "string \<Rightarrow> string \<Rightarrow> bool" where
  "contains pat [] = (pat = [])"
| "contains pat (c # cs) = (prefix pat (c # cs) \<or> contains pat cs)"

fun tag_html :: "string \<Rightarrow> string" where
  "tag_html [] = []"
| "tag_html (c # cs) =
     (if map lower_ascii (take 5 (c # cs)) = ''<html'' \<and> CHR ''>'' \<in> set (drop 5 (c # cs)) then
        (let attrs = takeWhile (\<lambda>x. x \<noteq> CHR ''>'') (drop 5 (c # cs));
             rest = drop 1 (dropWhile (\<lambda>x. x \<noteq> CHR ''>'') (drop 5 (c # cs)))
         in if contains ''hugo-preview='' attrs then ''<html'' @ attrs @ ''>'' @ rest
            else ''<html'' @ attrs @ '' hugo-preview='' @ [dquote] @ ''true'' @ [dquote] @ ''>'' @
                 rest)
      else c # tag_html cs)"

text \<open>Lines 130-206: the build, the search for the page, and the panel.\<close>

definition render :: "prepared \<Rightarrow> world \<Rightarrow> (error + unit) \<times> world" where
  "render p w =
     (let P = pathmod_of w;
          w1 = emit (ExecBuild (prep_hugo p)
                  [''--source'', prep_workspace p, ''--contentDir'', prep_contentDir p,
                   ''--destination'', prep_outDir p,
                   ''--buildDrafts'', ''--buildFuture'', ''--buildExpired'']) w
      in
     (case build_result w1 of
        Inl e \<Rightarrow> (Inl e, w1)
      | Inr written \<Rightarrow>
     (let w2 = w1\<lparr>fs_files := foldr (\<lambda>(q, c). write_file q c) written (fs_files w1)\<rparr>;
          w3 = emit (ExecList (prep_hugo p) [''--source'', prep_workspace p, ''list'', ''all'']) w2
      in
     (case list_result w3 of
        Inl e \<Rightarrow> (Inl e, w3)
      | Inr stdout \<Rightarrow>
     (case resolveHtmlPathByHugoList P (url_pathname_of w3) stdout (prep_outDir p)
             (prep_relPath p) of
        Inl e \<Rightarrow> (Inl e, w3)
      | Inr htmlPath \<Rightarrow>
     (case map_of (fs_files w3) htmlPath of
        None \<Rightarrow> (Inl (HtmlNotGenerated htmlPath), w3)
      | Some html \<Rightarrow>
     (let fileName = path_basename P (prep_relPath p);
          w4 = (case previewPanel w3 of
                  None \<Rightarrow>
                    (emit (PanelCreate fileName) w3)
                      \<lparr>previewPanel := Some \<lparr>panel_title = fileName, panel_html = []\<rparr>\<rparr>
                | Some pn \<Rightarrow>
                    (emit PanelReveal (emit (PanelSetTitle fileName) w3))
                      \<lparr>previewPanel := Some (pn\<lparr>panel_title := fileName\<rparr>)\<rparr>);
          rootUri = asWebviewUri w4 (prep_outDir p);
          html' = tag_html (rewriteRootPaths html rootUri);
          w5 = (emit PanelSetHtml w4)
                 \<lparr>previewPanel := map_option (\<lambda>pn. pn\<lparr>panel_html := html'\<rparr>) (previewPanel w4)\<rparr>
      in (Inr (), emit (OnDidSaveTextDocument (prep_docPath p)) w5))))))))"

definition openPreview :: "world \<Rightarrow> (error + unit) \<times> world" where
  "openPreview w =
     (case prepare w of
        (Inl e, w1) \<Rightarrow> (Inl e, w1)
      | (Inr p, w1) \<Rightarrow> render p w1)"

fun builds :: "event list \<Rightarrow> (string \<times> string list) list" where
  "builds [] = []"
| "builds (ExecBuild cmd args # es) = (cmd, args) # builds es"
| "builds (_ # es) = builds es"

text \<open>The files of the model that lie under a directory.\<close>

definition files_under :: "pathmod \<Rightarrow> string \<Rightarrow> world \<Rightarrow> string list" where
  "files_under P dir w = filter (\<lambda>q. prefix (dir @ path_sep P) q) (map fst (fs_files w))"

text \<open>
  A workspace \<^verbatim>\<open>/ws\<close> with two pages, the first of them open in the editor; \<^verbatim>\<open>hugo\<close> is on
  the PATH, and the build writes the page of the first document.
\<close>

definition example_doc_a :: document where
  "example_doc_a =
     \<lparr> doc_languageId = ''markdown'', doc_fsPath = ''/ws/content/posts/a.md'',
       doc_text = ''# A'' \<rparr>"

definition example_doc_b :: document where
  "example_doc_b =
     \<lparr> doc_languageId = ''markdown'', doc_fsPath = ''/ws/content/posts/b.md'',
       doc_text = ''# B'' \<rparr>"

definition example_workspace :: world where
  "example_workspace =
     example_world
       \<lparr> activeTextEditor := Some example_doc_a, workspaceFolder := Some ''/ws'',
         version_stdout := (\<lambda>cmd. if cmd = ''hugo'' then Some ''hugo v0.152.2+extended'' else None),
         build_result := Inr [(''/store/run/public/posts/a/index.html'',
                               ''<html><a href='' @ [dquote] @ ''/x'' @ [dquote] @ ''></html>'')],
         list_result := Inr (''path,slug,title,permalink'' @ [CHR 0x0A] @
            ''content/posts/a.md,,A,http://localhost:1313/posts/a/'' @ [CHR 0x0A] @
            ''content/posts/b.md,,B,http://localhost:1313/posts/b/'' @ [CHR 0x0A]) \<rparr>"

text \<open>
  \<open>frame w w'\<close>: from \<open>w\<close> to \<open>w'\<close> the \<^verbatim>\<open>path\<close> module, the storage, the failing paths and
  the preview panel are the same, and the trace has gained no build.
\<close>

definition frame :: "world \<Rightarrow> world \<Rightarrow> bool" where
  "frame w w' \<longleftrightarrow>
     pathmod_of w' = pathmod_of w \<and> globalStorage w' = globalStorage w \<and>
     fs_fails w' = fs_fails w \<and> process_platform w' = process_platform w \<and>
     previewPanel w' = previewPanel w \<and> builds (trace w') = builds (trace w)"

section \<open>The Hugo server process (extension.ts, lines 703-856)\<close>

text \<open>
  \<open>startHugoServer\<close> is an \<^verbatim>\<open>async\<close> function: it runs up to \<^verbatim>\<open>await ensureHugo(...)\<close>,
  gives the control back to the event loop, and runs its second half, with the
  \<^verbatim>\<open>spawn\<close>, when the promise is settled. Other commands and the events of the child
  processes are handled in between. The model has one step for every piece of code that
  the event loop runs without interruption.

  A state holds the variable \<open>hugoServerProcess\<close> (processes are numbered in the order of
  their \<^verbatim>\<open>spawn\<close>), the processes that have been launched and have not exited, the number
  of calls of \<open>startHugoServer\<close> that wait at their \<^verbatim>\<open>await\<close>, and the processes whose exit
  a call of \<open>restartHugoServer\<close> waits for.
\<close>

record server =
  hugoServerProcess :: "nat option"
  live :: "nat list"
  spawned :: nat
  suspended_starts :: nat
  restarts_waiting :: "nat list"
  workspace_open :: bool

text \<open>
  How the second half of \<open>startHugoServer\<close> ends: \<open>ensureHugo\<close> throws, the cleaning of
  \<^verbatim>\<open>public\<close> fails, \<^verbatim>\<open>spawn\<close> throws, or \<^verbatim>\<open>spawn\<close> returns a process object, whose process
  has been launched or not (then its \<^verbatim>\<open>error\<close> event follows).
\<close>

datatype start_outcome = EnsureHugoThrows | CleanPublicFails | SpawnThrows | Spawns bool

datatype step =
    StartCall
  | StartResume start_outcome
  | StopCall
  | RestartCall
  | ProcExit nat
  | ProcError nat

text \<open>Lines 703-713: the guard and the workspace check, up to the \<^verbatim>\<open>await\<close>.\<close>

definition start_first_half :: "server \<Rightarrow> server" where
  "start_first_half s =
     (if hugoServerProcess s \<noteq> None then s
      else if \<not> workspace_open s then s
      else s\<lparr>suspended_starts := suspended_starts s + 1\<rparr>)"

text \<open>Lines 715-825, run when \<open>ensureHugo\<close> has settled.\<close>

definition start_second_half :: "start_outcome \<Rightarrow> server \<Rightarrow> server" where
  "start_second_half outcome s =
     (if suspended_starts s = 0 then s
      else
        (let s1 = s\<lparr>suspended_starts := suspended_starts s - 1\<rparr> in
         case outcome of
           EnsureHugoThrows \<Rightarrow> s1
         | CleanPublicFails \<Rightarrow> s1
         | SpawnThrows \<Rightarrow> s1\<lparr>hugoServerProcess := None\<rparr>
         | Spawns launched \<Rightarrow>
             s1\<lparr> hugoServerProcess := Some (spawned s1),
                 live := (if launched then live s1 @ [spawned s1] else live s1),
                 spawned := spawned s1 + 1 \<rparr>))"

text \<open>
  Lines 827-851: \<open>stopHugoServer\<close> clears the variable and kills the process; its
  promise is resolved by the \<^verbatim>\<open>exit\<close> event of that process, or at once when no process
  is managed.
\<close>

definition stop_call :: "server \<Rightarrow> server" where
  "stop_call s = (case hugoServerProcess s of None \<Rightarrow> s | Some proc \<Rightarrow> s\<lparr>hugoServerProcess := None\<rparr>)"

text \<open>Lines 853-856: \<open>restartHugoServer\<close> starts when the promise of the stop is resolved.\<close>

definition restart_call :: "server \<Rightarrow> server" where
  "restart_call s =
     (case hugoServerProcess s of
        None \<Rightarrow> start_first_half s
      | Some proc \<Rightarrow>
          s\<lparr>hugoServerProcess := None, restarts_waiting := restarts_waiting s @ [proc]\<rparr>)"

text \<open>
  The \<^verbatim>\<open>exit\<close> event of a process: the handler of lines 793-795 clears the variable,
  whichever process it holds, and every restart that waits for this process goes on
  with the first half of \<open>startHugoServer\<close>.
\<close>

definition proc_exit :: "nat \<Rightarrow> server \<Rightarrow> server" where
  "proc_exit p s =
     (if p \<notin> set (live s) then s
      else
        (let s1 = s\<lparr> live := filter (\<lambda>q. q \<noteq> p) (live s), hugoServerProcess := None,
                     restarts_waiting := filter (\<lambda>q. q \<noteq> p) (restarts_waiting s) \<rparr>
         in ((\<lambda>t. start_first_half t) ^^ length (filter (\<lambda>q. q = p) (restarts_waiting s))) s1))"

text \<open>The \<^verbatim>\<open>error\<close> event of a process object (lines 783-784).\<close>

definition proc_error :: "nat \<Rightarrow> server \<Rightarrow> server" where
  "proc_error p s = (if p < spawned s then s\<lparr>hugoServerProcess := None\<rparr> else s)"

fun do_step :: "step \<Rightarrow> server \<Rightarrow> server" where
  "do_step StartCall s = start_first_half s"
| "do_step (StartResume outcome) s = start_second_half outcome s"
| "do_step StopCall s = stop_call s"
| "do_step RestartCall s = restart_call s"
| "do_step (ProcExit p) s = proc_exit p s"
| "do_step (ProcError p) s = proc_error p s"

definition run :: "step list \<Rightarrow> server \<Rightarrow> server" where
  "run steps s = foldl (\<lambda>t st. do_step st t) s steps"

definition initial_server :: server where
  "initial_server =
     \<lparr> hugoServerProcess = None, live = [], spawned = 0, suspended_starts = 0,
       restarts_waiting = [], workspace_open = True \<rparr>"

text \<open>
  The operations when each is run to its end before the next one begins: a start with
  both halves, a stop with the exit of the process it kills, a restart as the two, and
  the exit of the managed process by itself.
\<close>

datatype operation = Start start_outcome | Stop | Restart start_outcome | Crash

definition stop_to_end :: "server \<Rightarrow> server" where
  "stop_to_end s =
     (case hugoServerProcess s of None \<Rightarrow> s | Some proc \<Rightarrow> proc_exit proc (stop_call s))"

fun do_operation :: "operation \<Rightarrow> server \<Rightarrow> server" where
  "do_operation (Start outcome) s = start_second_half outcome (start_first_half s)"
| "do_operation Stop s = stop_to_end s"
| "do_operation (Restart outcome) s =
     start_second_half outcome (start_first_half (stop_to_end s))"
| "do_operation Crash s =
     (case hugoServerProcess s of None \<Rightarrow> s | Some proc \<Rightarrow> proc_exit proc s)"

text \<open>At most the managed process is alive, and no call is waiting.\<close>

definition single_server :: "server \<Rightarrow> bool" where
  "single_server s \<longleftrightarrow>
     suspended_starts s = 0 \<and> restarts_waiting s = [] \<and>
     (live s = [] \<or> (\<exists>p. live s = [p] \<and> hugoServerProcess s = Some p))"

section \<open>Properties of isNewer\<close>

lemma js_gt_irrefl: "\<not> js_gt x x"
  by (cases x) auto

lemma js_lt_irrefl: "\<not> js_lt x x"
  by (cases x) auto

lemma js_gt_lt: "js_gt x y = js_lt y x"
  by (cases x; cases y) auto

lemma js_lt_asym: "js_lt x y \<Longrightarrow> \<not> js_lt y x"
  by (cases x; cases y) auto

lemma js_NaN_incomparable:
  "\<not> js_gt NaN y" "\<not> js_gt x NaN" "\<not> js_lt NaN y" "\<not> js_lt x NaN"
  by (cases x; cases y; simp)+

lemma decides_at_sym: "decides_at r l i = decides_at l r i"
  by (auto simp: decides_at_def js_gt_lt)

lemma loop_done: "\<not> i < 3 \<Longrightarrow> isNewer_loop r l i = False"
  by (subst isNewer_loop.simps) simp

lemma loop_decide:
  "i < 3 \<Longrightarrow> decides_at r l i \<Longrightarrow>
   isNewer_loop r l i = js_gt (at_or_zero r i) (at_or_zero l i)"
  by (subst isNewer_loop.simps) (auto simp: decides_at_def)

lemma loop_skip:
  "i < 3 \<Longrightarrow> \<not> decides_at r l i \<Longrightarrow> isNewer_loop r l i = isNewer_loop r l (i + 1)"
  by (subst isNewer_loop.simps) (auto simp: decides_at_def)

lemma loop_irrefl: "\<not> isNewer_loop r r i"
proof (induction "3 - i" arbitrary: i)
  case 0
  then show ?case by (simp add: loop_done)
next
  case (Suc n)
  have nd: "\<not> decides_at r r i"
    by (simp add: decides_at_def js_gt_irrefl js_lt_irrefl)
  from Suc have "i < 3" "n = 3 - (i + 1)" by auto
  with Suc.hyps(1)[of "i + 1"] nd show ?case by (simp add: loop_skip)
qed

lemma loop_asym: "isNewer_loop r l i \<Longrightarrow> \<not> isNewer_loop l r i"
proof (induction r l i rule: isNewer_loop.induct)
  case (1 r l i)
  show ?case
  proof (cases "i < 3")
    case False
    then show ?thesis by (simp add: loop_done)
  next
    case lt: True
    show ?thesis
    proof (cases "decides_at r l i")
      case True
      then have d': "decides_at l r i" by (simp add: decides_at_sym)
      from "1.prems" lt True have "js_gt (at_or_zero r i) (at_or_zero l i)"
        by (simp add: loop_decide)
      then have "\<not> js_gt (at_or_zero l i) (at_or_zero r i)"
        by (auto simp: js_gt_lt dest: js_lt_asym)
      with lt d' show ?thesis by (simp add: loop_decide)
    next
      case False
      then have d': "\<not> decides_at l r i" by (simp add: decides_at_sym)
      from False have a: "\<not> js_gt (at_or_zero r i) (at_or_zero l i)"
        and b: "\<not> js_lt (at_or_zero r i) (at_or_zero l i)"
        by (auto simp: decides_at_def)
      from "1.prems" lt False have "isNewer_loop r l (i + 1)" by (simp add: loop_skip)
      with "1.IH"[OF lt a b] have "\<not> isNewer_loop l r (i + 1)" .
      with lt d' show ?thesis by (simp add: loop_skip)
    qed
  qed
qed

text \<open>The loop reads nothing but the components at the indices it still has to visit.\<close>

lemma loop_cong:
  "(\<And>j. i \<le> j \<Longrightarrow> j < 3 \<Longrightarrow>
      at_or_zero r j = at_or_zero r' j \<and> at_or_zero l j = at_or_zero l' j) \<Longrightarrow>
   isNewer_loop r l i = isNewer_loop r' l' i"
proof (induction "3 - i" arbitrary: i)
  case 0
  then show ?case by (simp add: loop_done)
next
  case (Suc n)
  then have lt: "i < 3" by simp
  have eq: "at_or_zero r i = at_or_zero r' i" "at_or_zero l i = at_or_zero l' i"
    using Suc.prems[of i] lt by auto
  have IH: "isNewer_loop r l (i + 1) = isNewer_loop r' l' (i + 1)"
    using Suc.hyps(1)[of "i + 1"] Suc.hyps(2) Suc.prems by auto
  show ?case
    using IH by (subst isNewer_loop.simps, subst (2) isNewer_loop.simps) (simp add: eq)
qed

lemma at_or_zero_take3:
  "j < 3 \<Longrightarrow> at_or_zero (map num (take 3 xs)) j = at_or_zero (map num xs) j"
  by (auto simp: at_or_zero_def)

lemma at_or_zero_pad: "at_or_zero (r @ [Num 0]) j = at_or_zero r j"
  by (auto simp: at_or_zero_def nth_append less_Suc_eq)

lemma split_on_nonempty: "split_on sep s \<noteq> []"
  by (induction s) (auto split: list.splits)

lemma split_on_Cons:
  "split_on sep (c # cs) =
     (if c = sep then [] # split_on sep cs
      else (c # hd (split_on sep cs)) # tl (split_on sep cs))"
  using split_on_nonempty[of sep cs] by (cases "split_on sep cs") auto

lemma split_on_append:
  "split_on sep (a @ sep # b) = split_on sep a @ split_on sep b"
proof (induction a)
  case Nil
  then show ?case by (simp del: split_on.simps(2) add: split_on_Cons)
next
  case (Cons c a)
  then show ?case
    using split_on_nonempty[of sep a]
    by (cases "split_on sep a") (auto simp del: split_on.simps(2) simp add: split_on_Cons)
qed


lemma isNewer_first_three:
  assumes "take 3 (split_on CHR ''.'' a) = take 3 (split_on CHR ''.'' a')"
    and "take 3 (split_on CHR ''.'' b) = take 3 (split_on CHR ''.'' b')"
  shows "isNewer num a b = isNewer num a' b'"
proof -
  have "at_or_zero (map num (split_on CHR ''.'' a)) j =
        at_or_zero (map num (split_on CHR ''.'' a')) j" if "j < 3" for j
    using at_or_zero_take3[OF that, of num "split_on CHR ''.'' a"]
      at_or_zero_take3[OF that, of num "split_on CHR ''.'' a'"] assms(1) by simp
  moreover have "at_or_zero (map num (split_on CHR ''.'' b)) j =
        at_or_zero (map num (split_on CHR ''.'' b')) j" if "j < 3" for j
    using at_or_zero_take3[OF that, of num "split_on CHR ''.'' b"]
      at_or_zero_take3[OF that, of num "split_on CHR ''.'' b'"] assms(2) by simp
  ultimately show ?thesis
    unfolding isNewer_def by (intro loop_cong) simp
qed

lemma isNewer_pad_zero:
  assumes "num ''0'' = Num 0"
  shows "isNewer num (a @ ''.0'') b = isNewer num a b"
    and "isNewer num a (b @ ''.0'') = isNewer num a b"
proof -
  have sp: "map num (split_on CHR ''.'' (s @ ''.0'')) = map num (split_on CHR ''.'' s) @ [Num 0]"
    for s
    using assms by (simp add: split_on_append)
  show "isNewer num (a @ ''.0'') b = isNewer num a b"
    unfolding isNewer_def sp by (intro loop_cong) (simp add: at_or_zero_pad)
  show "isNewer num a (b @ ''.0'') = isNewer num a b"
    unfolding isNewer_def sp by (intro loop_cong) (simp add: at_or_zero_pad)
qed

lemma js_gt_Num: "js_gt x y \<longleftrightarrow> (\<exists>u v. x = Num u \<and> y = Num v \<and> v < u)"
  by (cases x; cases y) auto

lemma not_decides_iff:
  "\<not> decides_at r l j \<longleftrightarrow>
     at_or_zero r j = NaN \<or> at_or_zero l j = NaN \<or> at_or_zero r j = at_or_zero l j"
  by (cases "at_or_zero r j"; cases "at_or_zero l j") (auto simp: decides_at_def)

lemma loop_first_difference:
  "isNewer_loop r l i \<longleftrightarrow>
     (\<exists>k. i \<le> k \<and> k < 3 \<and> js_gt (at_or_zero r k) (at_or_zero l k) \<and>
          (\<forall>j. i \<le> j \<and> j < k \<longrightarrow> \<not> decides_at r l j))"
proof (induction "3 - i" arbitrary: i)
  case 0
  then show ?case by (simp add: loop_done)
next
  case (Suc n)
  then have lt: "i < 3" by simp
  have IH: "isNewer_loop r l (i + 1) \<longleftrightarrow>
     (\<exists>k. i + 1 \<le> k \<and> k < 3 \<and> js_gt (at_or_zero r k) (at_or_zero l k) \<and>
          (\<forall>j. i + 1 \<le> j \<and> j < k \<longrightarrow> \<not> decides_at r l j))"
    using Suc.hyps(1)[of "i + 1"] Suc.hyps(2) by simp
  show ?case
  proof (cases "decides_at r l i")
    case True
    have "(\<exists>k. i \<le> k \<and> k < 3 \<and> js_gt (at_or_zero r k) (at_or_zero l k) \<and>
          (\<forall>j. i \<le> j \<and> j < k \<longrightarrow> \<not> decides_at r l j)) \<longleftrightarrow>
          js_gt (at_or_zero r i) (at_or_zero l i)"
    proof
      assume "\<exists>k. i \<le> k \<and> k < 3 \<and> js_gt (at_or_zero r k) (at_or_zero l k) \<and>
          (\<forall>j. i \<le> j \<and> j < k \<longrightarrow> \<not> decides_at r l j)"
      then obtain k where k: "i \<le> k" "k < 3" "js_gt (at_or_zero r k) (at_or_zero l k)"
        "\<forall>j. i \<le> j \<and> j < k \<longrightarrow> \<not> decides_at r l j" by blast
      from k(4) True have "\<not> i < k" by auto
      with k(1) have "k = i" by simp
      with k(3) show "js_gt (at_or_zero r i) (at_or_zero l i)" by simp
    next
      assume "js_gt (at_or_zero r i) (at_or_zero l i)"
      with lt show "\<exists>k. i \<le> k \<and> k < 3 \<and> js_gt (at_or_zero r k) (at_or_zero l k) \<and>
          (\<forall>j. i \<le> j \<and> j < k \<longrightarrow> \<not> decides_at r l j)"
        by (intro exI[of _ i]) auto
    qed
    with lt True show ?thesis by (simp add: loop_decide)
  next
    case False
    then have ngt: "\<not> js_gt (at_or_zero r i) (at_or_zero l i)" by (simp add: decides_at_def)
    have "(\<exists>k. i \<le> k \<and> k < 3 \<and> js_gt (at_or_zero r k) (at_or_zero l k) \<and>
          (\<forall>j. i \<le> j \<and> j < k \<longrightarrow> \<not> decides_at r l j)) \<longleftrightarrow>
        (\<exists>k. i + 1 \<le> k \<and> k < 3 \<and> js_gt (at_or_zero r k) (at_or_zero l k) \<and>
          (\<forall>j. i + 1 \<le> j \<and> j < k \<longrightarrow> \<not> decides_at r l j))"
    proof
      assume "\<exists>k. i \<le> k \<and> k < 3 \<and> js_gt (at_or_zero r k) (at_or_zero l k) \<and>
          (\<forall>j. i \<le> j \<and> j < k \<longrightarrow> \<not> decides_at r l j)"
      then obtain k where k: "i \<le> k" "k < 3" "js_gt (at_or_zero r k) (at_or_zero l k)"
        "\<forall>j. i \<le> j \<and> j < k \<longrightarrow> \<not> decides_at r l j" by blast
      from k(3) ngt have "k \<noteq> i" by auto
      with k(1) have "i + 1 \<le> k" by simp
      with k show "\<exists>k. i + 1 \<le> k \<and> k < 3 \<and> js_gt (at_or_zero r k) (at_or_zero l k) \<and>
          (\<forall>j. i + 1 \<le> j \<and> j < k \<longrightarrow> \<not> decides_at r l j)"
        by (intro exI[of _ k]) simp
    next
      assume "\<exists>k. i + 1 \<le> k \<and> k < 3 \<and> js_gt (at_or_zero r k) (at_or_zero l k) \<and>
          (\<forall>j. i + 1 \<le> j \<and> j < k \<longrightarrow> \<not> decides_at r l j)"
      then obtain k where k: "i + 1 \<le> k" "k < 3" "js_gt (at_or_zero r k) (at_or_zero l k)"
        "\<forall>j. i + 1 \<le> j \<and> j < k \<longrightarrow> \<not> decides_at r l j" by blast
      have "\<not> decides_at r l j" if "i \<le> j \<and> j < k" for j
      proof (cases "j = i")
        case True
        with False show ?thesis by simp
      next
        case False
        with that have "i + 1 \<le> j \<and> j < k" by simp
        with k(4) show ?thesis by blast
      qed
      with k show "\<exists>k. i \<le> k \<and> k < 3 \<and> js_gt (at_or_zero r k) (at_or_zero l k) \<and>
          (\<forall>j. i \<le> j \<and> j < k \<longrightarrow> \<not> decides_at r l j)"
        by (intro exI[of _ k]) simp
    qed
    with lt False IH show ?thesis by (simp add: loop_skip)
  qed
qed

lemma isNewer_first_difference:
  fixes num :: "string \<Rightarrow> ('v::{linorder,zero}) jsnumber"
  shows "isNewer num a b \<longleftrightarrow>
     (\<exists>i<3. (\<exists>x y. at_or_zero (map num (split_on CHR ''.'' a)) i = Num x \<and>
                    at_or_zero (map num (split_on CHR ''.'' b)) i = Num y \<and> y < x) \<and>
            (\<forall>j<i. at_or_zero (map num (split_on CHR ''.'' a)) j = NaN \<or>
                   at_or_zero (map num (split_on CHR ''.'' b)) j = NaN \<or>
                   at_or_zero (map num (split_on CHR ''.'' a)) j =
                   at_or_zero (map num (split_on CHR ''.'' b)) j))"
  unfolding isNewer_def loop_first_difference[of _ _ 0] js_gt_Num not_decides_iff
  by simp

text \<open>A component that is not a number counts like a pair of equal components.\<close>

lemma loop_NaN_as_equal:
  assumes "i < 3" "at_or_zero r i = NaN \<or> at_or_zero l i = NaN"
    and "\<And>j. j < 3 \<Longrightarrow> j \<noteq> i \<Longrightarrow> at_or_zero r' j = at_or_zero r j \<and> at_or_zero l' j = at_or_zero l j"
    and "at_or_zero r' i = at_or_zero l' i"
  shows "isNewer_loop r l 0 = isNewer_loop r' l' 0"
proof -
  have d: "decides_at r l j = decides_at r' l' j" if "j < 3" for j
  proof (cases "j = i")
    case True
    with assms(2,4) show ?thesis
      by (auto simp: decides_at_def js_NaN_incomparable js_gt_irrefl js_lt_irrefl)
  next
    case False
    with assms(3)[OF that] show ?thesis by (simp add: decides_at_def)
  qed
  have g: "js_gt (at_or_zero r j) (at_or_zero l j) = js_gt (at_or_zero r' j) (at_or_zero l' j)"
    if "j < 3" for j
  proof (cases "j = i")
    case True
    with assms(2,4) show ?thesis
      by (auto simp: js_NaN_incomparable js_gt_irrefl)
  next
    case False
    with assms(3)[OF that] show ?thesis by simp
  qed
  have "(\<exists>k. 0 \<le> k \<and> k < 3 \<and> js_gt (at_or_zero r k) (at_or_zero l k) \<and>
          (\<forall>j. 0 \<le> j \<and> j < k \<longrightarrow> \<not> decides_at r l j)) \<longleftrightarrow>
        (\<exists>k. 0 \<le> k \<and> k < 3 \<and> js_gt (at_or_zero r' k) (at_or_zero l' k) \<and>
          (\<forall>j. 0 \<le> j \<and> j < k \<longrightarrow> \<not> decides_at r' l' j))"
    using d g by (metis (no_types, lifting) less_trans)
  then show ?thesis unfolding loop_first_difference[of _ _ 0] .
qed

text \<open>
  Claim C9, as the code has it. \<open>isNewer\<close> is irreflexive and asymmetric, whatever
  \<^verbatim>\<open>Number\<close> makes of the components, and its result depends on the first three
  dot-separated components of each argument only. It is true exactly when, at the first
  of the three indices where both components are numbers and differ, the component of
  the first argument is the greater one. So an index where either component converts to
  NaN is passed over like an index where the two components are equal: replacing the
  pair at such an index by a pair of equal components changes nothing. A missing
  component is read as the number 0 (appending \<^verbatim>\<open>.0\<close> to either argument changes
  nothing), so it does take part in the comparison.
\<close>

theorem isNewer_strict_three_components:
  fixes num :: "string \<Rightarrow> ('v::{linorder,zero}) jsnumber"
  shows
    "\<not> isNewer num v v \<and>
     \<not> (isNewer num a b \<and> isNewer num b a) \<and>
     (take 3 (split_on CHR ''.'' a) = take 3 (split_on CHR ''.'' a') \<and>
      take 3 (split_on CHR ''.'' b) = take 3 (split_on CHR ''.'' b')
        \<longrightarrow> isNewer num a b = isNewer num a' b') \<and>
     (isNewer num a b \<longleftrightarrow>
        (\<exists>i<3. (\<exists>x y. at_or_zero (map num (split_on CHR ''.'' a)) i = Num x \<and>
                       at_or_zero (map num (split_on CHR ''.'' b)) i = Num y \<and> y < x) \<and>
               (\<forall>j<i. at_or_zero (map num (split_on CHR ''.'' a)) j = NaN \<or>
                      at_or_zero (map num (split_on CHR ''.'' b)) j = NaN \<or>
                      at_or_zero (map num (split_on CHR ''.'' a)) j =
                      at_or_zero (map num (split_on CHR ''.'' b)) j))) \<and>
     (n < 3 \<and>
      (at_or_zero (map num (split_on CHR ''.'' a)) n = NaN \<or>
       at_or_zero (map num (split_on CHR ''.'' b)) n = NaN) \<and>
      at_or_zero (map num (split_on CHR ''.'' c)) n =
      at_or_zero (map num (split_on CHR ''.'' d)) n \<and>
      (\<forall>j<3. j \<noteq> n \<longrightarrow>
         at_or_zero (map num (split_on CHR ''.'' c)) j =
         at_or_zero (map num (split_on CHR ''.'' a)) j \<and>
         at_or_zero (map num (split_on CHR ''.'' d)) j =
         at_or_zero (map num (split_on CHR ''.'' b)) j)
        \<longrightarrow> isNewer num a b = isNewer num c d) \<and>
     (num ''0'' = Num 0
        \<longrightarrow> isNewer num (a @ ''.0'') b = isNewer num a b \<and>
            isNewer num a (b @ ''.0'') = isNewer num a b)"
proof (intro conjI impI)
  show "\<not> isNewer num v v"
    by (simp add: isNewer_def loop_irrefl)
  show "\<not> (isNewer num a b \<and> isNewer num b a)"
    using loop_asym by (auto simp: isNewer_def)
  show "isNewer num a b = isNewer num a' b'"
    if "take 3 (split_on CHR ''.'' a) = take 3 (split_on CHR ''.'' a') \<and>
        take 3 (split_on CHR ''.'' b) = take 3 (split_on CHR ''.'' b')"
    using that isNewer_first_three by blast
  show "isNewer num a b \<longleftrightarrow>
        (\<exists>i<3. (\<exists>x y. at_or_zero (map num (split_on CHR ''.'' a)) i = Num x \<and>
                       at_or_zero (map num (split_on CHR ''.'' b)) i = Num y \<and> y < x) \<and>
               (\<forall>j<i. at_or_zero (map num (split_on CHR ''.'' a)) j = NaN \<or>
                      at_or_zero (map num (split_on CHR ''.'' b)) j = NaN \<or>
                      at_or_zero (map num (split_on CHR ''.'' a)) j =
                      at_or_zero (map num (split_on CHR ''.'' b)) j))"
    by (rule isNewer_first_difference)
  show "isNewer num a b = isNewer num c d"
    if h: "n < 3 \<and>
      (at_or_zero (map num (split_on CHR ''.'' a)) n = NaN \<or>
       at_or_zero (map num (split_on CHR ''.'' b)) n = NaN) \<and>
      at_or_zero (map num (split_on CHR ''.'' c)) n =
      at_or_zero (map num (split_on CHR ''.'' d)) n \<and>
      (\<forall>j<3. j \<noteq> n \<longrightarrow>
         at_or_zero (map num (split_on CHR ''.'' c)) j =
         at_or_zero (map num (split_on CHR ''.'' a)) j \<and>
         at_or_zero (map num (split_on CHR ''.'' d)) j =
         at_or_zero (map num (split_on CHR ''.'' b)) j)"
    unfolding isNewer_def
    by (rule loop_NaN_as_equal[of n]) (use h in auto)
  show "isNewer num (a @ ''.0'') b = isNewer num a b" if "num ''0'' = Num 0"
    using that by (rule isNewer_pad_zero)
  show "isNewer num a (b @ ''.0'') = isNewer num a b" if "num ''0'' = Num 0"
    using that by (rule isNewer_pad_zero)
qed

lemma Number_digits_simps:
  "Number_digits ''0'' = Num 0" "Number_digits ''1'' = Num 1" "Number_digits ''2'' = Num 2"
  "Number_digits ''3'' = Num 3" "Number_digits ''9'' = Num 9" "Number_digits ''x'' = NaN"
  by (simp_all add: Number_digits_def digit_val_def)

lemma components_examples:
  "map Number_digits (split_on CHR ''.'' ''1.x.4'') = [Num 1, NaN, Num 4]"
  "map Number_digits (split_on CHR ''.'' ''1.2.4'') = [Num 1, Num 2, Num 4]"
  "map Number_digits (split_on CHR ''.'' ''1.2.3'') = [Num 1, Num 2, Num 3]"
  by code_simp+

text \<open>
  The theorem at concrete versions: \<^verbatim>\<open>1.2.3.9\<close> and \<^verbatim>\<open>1.2.3\<close> agree on their first three
  components; \<^verbatim>\<open>1.2.4\<close> is newer than \<^verbatim>\<open>1.2.3\<close> by its third component, and so is \<^verbatim>\<open>1.x.4\<close>,
  whose second component is not a number; \<^verbatim>\<open>1.2\<close> lacks the third.
\<close>

theorem isNewer_strict_three_components_witness:
  "\<not> isNewer Number_digits ''1.2.3'' ''1.2.3'' \<and>
   \<not> (isNewer Number_digits ''1.3'' ''1.2'' \<and> isNewer Number_digits ''1.2'' ''1.3'') \<and>
   isNewer Number_digits ''1.2.3.9'' ''1.2.2.1'' = isNewer Number_digits ''1.2.3'' ''1.2.2'' \<and>
   isNewer Number_digits ''1.2.4'' ''1.2.3'' \<and>
   isNewer Number_digits ''1.x.4'' ''1.2.3'' = isNewer Number_digits ''1.2.4'' ''1.2.3'' \<and>
   isNewer Number_digits (''1.2'' @ ''.0'') ''1.2'' = isNewer Number_digits ''1.2'' ''1.2''"
proof -
  note t = isNewer_strict_three_components[where num = Number_digits]
  have 1: "\<not> isNewer Number_digits ''1.2.3'' ''1.2.3''"
    using t[of "''1.2.3''"] by (rule conjunct1)
  have 2: "\<not> (isNewer Number_digits ''1.3'' ''1.2'' \<and> isNewer Number_digits ''1.2'' ''1.3'')"
    using t[of _ "''1.3''" "''1.2''"] by blast
  have 3: "isNewer Number_digits ''1.2.3.9'' ''1.2.2.1'' = isNewer Number_digits ''1.2.3'' ''1.2.2''"
    using t[of _ "''1.2.3.9''" "''1.2.2.1''" "''1.2.3''" "''1.2.2''"] by simp
  have "\<exists>i<3. (\<exists>x y. at_or_zero (map Number_digits (split_on CHR ''.'' ''1.2.4'')) i = Num x \<and>
                       at_or_zero (map Number_digits (split_on CHR ''.'' ''1.2.3'')) i = Num y \<and> y < x) \<and>
               (\<forall>j<i. at_or_zero (map Number_digits (split_on CHR ''.'' ''1.2.4'')) j = NaN \<or>
                      at_or_zero (map Number_digits (split_on CHR ''.'' ''1.2.3'')) j = NaN \<or>
                      at_or_zero (map Number_digits (split_on CHR ''.'' ''1.2.4'')) j =
                      at_or_zero (map Number_digits (split_on CHR ''.'' ''1.2.3'')) j)"
    unfolding components_examples
    by (intro exI[of _ 2]) (auto simp: at_or_zero_def less_Suc_eq numeral_2_eq_2)
  then have 4: "isNewer Number_digits ''1.2.4'' ''1.2.3''"
    using t[of _ "''1.2.4''" "''1.2.3''"] by blast
  have h: "(1::nat) < 3 \<and>
      (at_or_zero (map Number_digits (split_on CHR ''.'' ''1.x.4'')) 1 = NaN \<or>
       at_or_zero (map Number_digits (split_on CHR ''.'' ''1.2.3'')) 1 = NaN) \<and>
      at_or_zero (map Number_digits (split_on CHR ''.'' ''1.2.4'')) 1 =
      at_or_zero (map Number_digits (split_on CHR ''.'' ''1.2.3'')) 1 \<and>
      (\<forall>j<3. j \<noteq> 1 \<longrightarrow>
         at_or_zero (map Number_digits (split_on CHR ''.'' ''1.2.4'')) j =
         at_or_zero (map Number_digits (split_on CHR ''.'' ''1.x.4'')) j \<and>
         at_or_zero (map Number_digits (split_on CHR ''.'' ''1.2.3'')) j =
         at_or_zero (map Number_digits (split_on CHR ''.'' ''1.2.3'')) j)"
    unfolding components_examples
    by (auto simp: at_or_zero_def less_Suc_eq numeral_3_eq_3)
  have 5: "isNewer Number_digits ''1.x.4'' ''1.2.3'' = isNewer Number_digits ''1.2.4'' ''1.2.3''"
    using t[of _ "''1.x.4''" "''1.2.3''" _ _ 1 "''1.2.4''" "''1.2.3''"] h by blast
  have 6: "isNewer Number_digits (''1.2'' @ ''.0'') ''1.2'' = isNewer Number_digits ''1.2'' ''1.2''"
    using t[of _ "''1.2''" "''1.2''"] by (simp add: Number_digits_simps)
  from 1 2 3 4 5 6 show ?thesis by (intro conjI)
qed

text \<open>
  Claim C9 as it is written says that a missing component is treated as neither greater
  nor smaller. It is not: \<^verbatim>\<open>1\<close> has no second component, the loop reads it as 0, returns
  at that index against the 1 of \<^verbatim>\<open>1.1\<close>, and \<^verbatim>\<open>1.1\<close> is newer than \<^verbatim>\<open>1\<close>.
\<close>

theorem isNewer_missing_component_counterexample:
  "length (split_on CHR ''.'' ''1'') = 1 \<and>
   decides_at (map Number_digits (split_on CHR ''.'' ''1.1''))
     (map Number_digits (split_on CHR ''.'' ''1'')) 1 \<and>
   isNewer Number_digits ''1.1'' ''1''"
  by (simp add: isNewer_def Number_digits_simps decides_at_def at_or_zero_def
      loop_decide loop_skip)

section \<open>Properties of rewriteRootPaths\<close>

lemma get_substitution_plain:
  "CHR ''$'' \<notin> set t \<Longrightarrow> get_substitution m p f t = t"
  by (induction m p f t rule: get_substitution.induct) auto

text \<open>One attribute pass, for a template free of dollar signs.\<close>

lemma replace_Nil: "pat \<noteq> [] \<Longrightarrow> js_replace_all pat t p [] = []"
  by (subst js_replace_all.simps) simp

lemma replace_match:
  "pat \<noteq> [] \<Longrightarrow> CHR ''$'' \<notin> set t \<Longrightarrow> prefix pat s \<Longrightarrow>
   js_replace_all pat t p s = t @ js_replace_all pat t (p @ pat) (drop (length pat) s)"
  by (subst js_replace_all.simps) (simp add: get_substitution_plain)

lemma replace_copy:
  "\<not> prefix pat (c # cs) \<Longrightarrow>
   js_replace_all pat t p (c # cs) = c # js_replace_all pat t (p @ [c]) cs"
  by (subst js_replace_all.simps) simp

lemma replace_preceding_irrelevant:
  "pat \<noteq> [] \<Longrightarrow> CHR ''$'' \<notin> set t \<Longrightarrow>
   js_replace_all pat t p s = js_replace_all pat t p' s"
proof (induction "length s" arbitrary: s p p' rule: less_induct)
  case less
  show ?case
  proof (cases "prefix pat s")
    case True
    with less.prems have "length (drop (length pat) s) < length s"
      by (auto simp: prefix_def)
    from less.hyps[OF this less.prems] True less.prems show ?thesis
      by (simp add: replace_match)
  next
    case False
    show ?thesis
    proof (cases s)
      case Nil
      with less.prems show ?thesis by (simp add: replace_Nil)
    next
      case (Cons c cs)
      with False less.hyps[of cs] less.prems show ?thesis
        by (simp add: replace_copy)
    qed
  qed
qed

lemma prefix_at_quote:
  "dquote \<notin> set E \<Longrightarrow> dquote \<notin> set x \<Longrightarrow>
   prefix (E @ [dquote, slash]) (x @ dquote # rest) \<longleftrightarrow> x = E \<and> prefix [slash] rest"
proof (induction E arbitrary: x)
  case Nil
  then show ?case by (cases x) auto
next
  case (Cons e E)
  then show ?case by (cases x) auto
qed

lemma no_prefix_before_slash:
  "dquote \<notin> set E \<Longrightarrow> slash \<notin> set E \<Longrightarrow> dquote \<notin> set x \<Longrightarrow>
   \<not> prefix (E @ [dquote, slash]) (x @ slash # rest)"
proof (induction E arbitrary: x)
  case Nil
  then show ?case by (cases x) (auto simp: dquote_def slash_def)
next
  case (Cons e E)
  then show ?case by (cases x) auto
qed

lemma no_prefix_plain:
  "dquote \<notin> set x \<Longrightarrow> \<not> prefix (E @ [dquote, slash]) x"
  by (auto simp: prefix_def)


lemma attr_pass_pass: "attr_pass attr root s = pass (attr @ ''='') root s"
  by (simp add: attr_pass_def pass_def attr_pattern_def attr_template_def)

lemma pass_Nil: "pass E root [] = []"
  by (simp add: pass_def replace_Nil)

lemma template_plain:
  "plain E \<Longrightarrow> CHR ''$'' \<notin> set root \<Longrightarrow> CHR ''$'' \<notin> set (E @ dquote # root @ [slash])"
  by (auto simp: plain_def dquote_def slash_def)

lemma pass_match:
  assumes "plain E" "CHR ''$'' \<notin> set root" "prefix (E @ [dquote, slash]) s"
  shows "pass E root s = E @ dquote # root @ slash # pass E root (drop (length E + 2) s)"
proof -
  let ?P = "E @ [dquote, slash]" and ?T = "E @ dquote # root @ [slash]"
  have d: "CHR ''$'' \<notin> set ?T" using assms(1,2) by (rule template_plain)
  have ne: "?P \<noteq> []" by simp
  have "js_replace_all ?P ?T [] s = ?T @ js_replace_all ?P ?T ([] @ ?P) (drop (length ?P) s)"
    using ne d assms(3) by (rule replace_match)
  also have "js_replace_all ?P ?T ([] @ ?P) (drop (length ?P) s) =
      js_replace_all ?P ?T [] (drop (length ?P) s)"
    using ne d by (rule replace_preceding_irrelevant)
  finally show ?thesis by (simp add: pass_def)
qed

lemma pass_copy:
  assumes "plain E" "CHR ''$'' \<notin> set root" "\<not> prefix (E @ [dquote, slash]) (c # cs)"
  shows "pass E root (c # cs) = c # pass E root cs"
proof -
  let ?P = "E @ [dquote, slash]" and ?T = "E @ dquote # root @ [slash]"
  have d: "CHR ''$'' \<notin> set ?T" using assms(1,2) by (rule template_plain)
  have ne: "?P \<noteq> []" by simp
  have "js_replace_all ?P ?T [] (c # cs) = c # js_replace_all ?P ?T ([] @ [c]) cs"
    using assms(3) by (rule replace_copy)
  also have "js_replace_all ?P ?T ([] @ [c]) cs = js_replace_all ?P ?T [] cs"
    using ne d by (rule replace_preceding_irrelevant)
  finally show ?thesis by (simp add: pass_def)
qed

lemma pass_no_quote:
  assumes "plain E" "CHR ''$'' \<notin> set root" "dquote \<notin> set w"
  shows "pass E root w = w"
  using assms(3)
proof (induction w)
  case Nil
  then show ?case by (simp add: pass_Nil)
next
  case (Cons c w)
  then have "\<not> prefix (E @ [dquote, slash]) (c # w)" by (intro no_prefix_plain) 
  with Cons assms show ?case by (simp add: pass_copy)
qed

lemma pass_slash:
  assumes "plain E" "CHR ''$'' \<notin> set root"
  shows "pass E root (slash # t) = slash # pass E root t"
proof -
  have "\<not> prefix (E @ [dquote, slash]) (slash # t)"
    using assms(1) by (cases E) (auto simp: plain_def)
  with assms show ?thesis by (simp add: pass_copy)
qed

lemma pass_quote:
  assumes "plain E" "CHR ''$'' \<notin> set root" "dquote \<notin> set w"
  shows "pass E root (w @ dquote # rest) =
     w @ dquote # (if suffix E w \<and> prefix [slash] rest then root else []) @ pass E root rest"
  using assms(3)
proof (induction w)
  case Nil
  have "\<not> prefix (E @ [dquote, slash]) (dquote # rest)"
    using assms(1) by (cases E) (auto simp: plain_def)
  with assms show ?case by (simp add: pass_copy plain_def)
next
  case (Cons c w)
  have dE: "dquote \<notin> set E" using assms(1) by (simp add: plain_def)
  show ?case
  proof (cases "c # w = E \<and> prefix [slash] rest")
    case True
    then obtain t where rest: "rest = slash # t" by (auto simp: prefix_def)
    have m: "prefix (E @ [dquote, slash]) ((c # w) @ dquote # rest)"
      using True prefix_at_quote[OF dE Cons.prems, of rest] by blast
    have "pass E root ((c # w) @ dquote # rest) =
        E @ dquote # root @ slash # pass E root (drop (length E + 2) ((c # w) @ dquote # rest))"
      using assms(1,2) m by (rule pass_match)
    also have "drop (length E + 2) ((c # w) @ dquote # rest) = t"
      using True rest by auto
    finally show ?thesis using True rest assms by (simp add: pass_slash)
  next
    case False
    have m: "\<not> prefix (E @ [dquote, slash]) ((c # w) @ dquote # rest)"
      using False prefix_at_quote[OF dE Cons.prems, of rest] by blast
    have s: "(suffix E (c # w) \<and> prefix [slash] rest) = (suffix E w \<and> prefix [slash] rest)"
      using False by (auto simp: suffix_Cons)
    from m assms(1,2) have "pass E root ((c # w) @ dquote # rest) = c # pass E root (w @ dquote # rest)"
      by (simp add: pass_copy)
    with Cons s show ?thesis by simp
  qed
qed


lemma pass_skip:
  assumes "plain E" "CHR ''$'' \<notin> set root" "dquote \<notin> set u"
  shows "pass E root (u @ slash # t) = u @ pass E root (slash # t)"
  using assms(3)
proof (induction u)
  case Nil
  then show ?case by simp
next
  case (Cons c u)
  have "\<not> prefix (E @ [dquote, slash]) ((c # u) @ slash # t)"
    using assms(1) Cons.prems by (intro no_prefix_before_slash) (auto simp: plain_def)
  with assms(1,2) have "pass E root ((c # u) @ slash # t) = c # pass E root (u @ slash # t)"
    by (simp add: pass_copy)
  with Cons show ?case by simp
qed

lemma first_quote:
  obtains (none) "dquote \<notin> set s"
  | (some) w rest where "s = w @ dquote # rest" "dquote \<notin> set w"
  using split_list_first[of dquote s] by blast

lemma quotewise_plain: "quotewise C root f \<Longrightarrow> dquote \<notin> set w \<Longrightarrow> f w = w"
  by (simp add: quotewise_def)

lemma quotewise_quote:
  "quotewise C root f \<Longrightarrow> dquote \<notin> set w \<Longrightarrow>
   f (w @ dquote # rest) = w @ dquote # (if C w \<and> prefix [slash] rest then root else []) @ f rest"
  by (simp add: quotewise_def)

lemma dquote_neq_slash: "dquote \<noteq> slash" "slash \<noteq> dquote"
  by (simp_all add: dquote_def slash_def)

lemma quotewise_head:
  assumes "quotewise C root f"
  shows "prefix [slash] (f s) \<longleftrightarrow> prefix [slash] s"
proof (cases s rule: first_quote)
  case none
  with assms show ?thesis by (simp add: quotewise_plain)
next
  case (some w rest)
  have "f s = w @ dquote # (if C w \<and> prefix [slash] rest then root else []) @ f rest"
    unfolding some(1) using assms some(2) by (rule quotewise_quote)
  with some show ?thesis
    by (cases w) (auto simp: dquote_neq_slash)
qed

lemma quotewise_skip:
  assumes "quotewise C root f" "\<And>u v. C (u @ slash # v) = C (slash # v)" "dquote \<notin> set u"
  shows "f (u @ slash # t) = u @ f (slash # t)"
proof (cases "slash # t" rule: first_quote)
  case none
  with assms(1,3) show ?thesis by (simp add: quotewise_plain dquote_neq_slash)
next
  case (some w rest)
  then obtain w' where w: "w = slash # w'" by (cases w) (auto simp: dquote_neq_slash)
  have "f (u @ slash # t) = f ((u @ w) @ dquote # rest)" using some by simp
  also have "\<dots> = (u @ w) @ dquote # (if C (u @ w) \<and> prefix [slash] rest then root else []) @ f rest"
    using assms(1) by (rule quotewise_quote) (use assms(3) some in simp)
  also have "C (u @ w) = C w" using assms(2) w by simp
  finally show ?thesis
    using some assms(1) by (simp add: quotewise_quote)
qed

lemma quotewise_unique:
  assumes "quotewise C root f" "quotewise C root g"
  shows "f s = g s"
proof (induction "length s" arbitrary: s rule: less_induct)
  case less
  show ?case
  proof (cases s rule: first_quote)
    case none
    with assms show ?thesis by (simp add: quotewise_plain)
  next
    case (some w rest)
    then have "f rest = g rest" by (intro less) simp
    with some assms show ?thesis by (simp add: quotewise_quote)
  qed
qed

lemma quotewise_idem:
  assumes q: "quotewise C root f" and loc: "\<And>u v. C (u @ slash # v) = C (slash # v)"
    and r: "dquote \<notin> set root" "\<not> prefix [slash] root"
  shows "f (f s) = f s"
proof (induction "length s" arbitrary: s rule: less_induct)
  case less
  show ?case
  proof (cases s rule: first_quote)
    case none
    with q show ?thesis by (simp add: quotewise_plain)
  next
    case (some w rest)
    then have IH: "f (f rest) = f rest" by (intro less) simp
    show ?thesis
    proof (cases "C w \<and> prefix [slash] rest")
      case False
      then have fs: "f s = w @ dquote # f rest"
        using some(1) quotewise_quote[OF q some(2), of rest] by auto
      have "f (w @ dquote # f rest) =
          w @ dquote # (if C w \<and> prefix [slash] (f rest) then root else []) @ f (f rest)"
        using q some(2) by (rule quotewise_quote)
      with False IH fs show ?thesis by (auto simp: quotewise_head[OF q])
    next
      case True
      then have fs: "f s = w @ dquote # root @ f rest"
        using some(1) quotewise_quote[OF q some(2), of rest] by auto
      from True quotewise_head[OF q, of rest] obtain t where t: "f rest = slash # t"
        by (auto simp: prefix_def)
      have step: "f (w @ dquote # root @ f rest) =
          w @ dquote # (if C w \<and> prefix [slash] (root @ f rest) then root else []) @ f (root @ f rest)"
        using q some(2) by (rule quotewise_quote)
      show ?thesis
      proof (cases "root = []")
        case True
        with step fs IH show ?thesis by simp
      next
        case False
        with r(2) have np: "\<not> prefix [slash] (root @ f rest)" by (cases root) auto
        have "f (root @ slash # t) = root @ f (slash # t)"
          using q loc r(1) by (rule quotewise_skip)
        with t IH have "f (root @ f rest) = root @ f rest" by simp
        with step np fs show ?thesis by simp
      qed
    qed
  qed
qed

lemma quotewise_pass:
  assumes q: "quotewise C root f" and E: "plain E" and r: "CHR ''$'' \<notin> set root" "dquote \<notin> set root"
    and ex: "\<And>w. suffix E w \<Longrightarrow> \<not> C w"
  shows "quotewise (\<lambda>w. C w \<or> suffix E w) root (\<lambda>s. pass E root (f s))"
  unfolding quotewise_def
proof (intro conjI allI impI)
  fix w assume "dquote \<notin> set w"
  with q E r show "pass E root (f w) = w" by (simp add: quotewise_plain pass_no_quote)
next
  fix w rest assume w: "dquote \<notin> set w"
  let ?X = "if C w \<and> prefix [slash] rest then root else []"
  have f: "f (w @ dquote # rest) = w @ dquote # ?X @ f rest"
    using q w by (rule quotewise_quote)
  have p: "pass E root (w @ dquote # ?X @ f rest) =
      w @ dquote # (if suffix E w \<and> prefix [slash] (?X @ f rest) then root else []) @
        pass E root (?X @ f rest)"
    using E r(1) w by (rule pass_quote)
  show "pass E root (f (w @ dquote # rest)) =
      w @ dquote # (if (C w \<or> suffix E w) \<and> prefix [slash] rest then root else []) @
        pass E root (f rest)"
  proof (cases "C w \<and> prefix [slash] rest")
    case True
    then have nE: "\<not> suffix E w" using ex by blast
    from True quotewise_head[OF q, of rest] obtain t where t: "f rest = slash # t"
      by (auto simp: prefix_def)
    have "pass E root (root @ slash # t) = root @ pass E root (slash # t)"
      using E r by (rule pass_skip)
    with f p True nE t show ?thesis by simp
  next
    case False
    with f p show ?thesis by (auto simp: quotewise_head[OF q])
  qed
qed

lemma quotewise_id: "quotewise (\<lambda>w. False) root (\<lambda>s. s)"
  by (simp add: quotewise_def)


lemma plain_attrs: "plain ''href=''" "plain ''src=''" "plain ''action=''"
  by (simp_all add: plain_def dquote_def slash_def)

lemma attr_pattern_eq: "attr_pattern a = (a @ ''='') @ [dquote, slash]"
  by (simp add: attr_pattern_def)

lemma suffix_exclusive:
  "suffix ''src='' w \<Longrightarrow> \<not> suffix ''href='' w"
  "suffix ''action='' w \<Longrightarrow> \<not> (suffix ''href='' w \<or> suffix ''src='' w)"
  by (auto simp: suffix_def)

lemma suffix_behind_slash:
  "slash \<notin> set E \<Longrightarrow> suffix E (u @ slash # v) = suffix E (slash # v)"
  by (auto simp: suffix_append)

lemma closes_attr_local: "closes_attr (u @ slash # v) = closes_attr (slash # v)"
  unfolding closes_attr_def
  by (subst (1 2 3) suffix_behind_slash) (simp_all add: slash_def)

lemma rewrite_quotewise:
  assumes "CHR ''$'' \<notin> set root" "dquote \<notin> set root"
  shows "quotewise closes_attr root (\<lambda>s. rewriteRootPaths s root)"
proof -
  have 1: "quotewise (\<lambda>w. False \<or> suffix ''href='' w) root (\<lambda>s. pass ''href='' root s)"
    using quotewise_id plain_attrs(1) assms by (rule quotewise_pass) simp
  have 2: "quotewise (\<lambda>w. (False \<or> suffix ''href='' w) \<or> suffix ''src='' w) root
      (\<lambda>s. pass ''src='' root (pass ''href='' root s))"
    using 1 plain_attrs(2) assms by (rule quotewise_pass) (simp add: suffix_exclusive)
  have 3: "quotewise (\<lambda>w. ((False \<or> suffix ''href='' w) \<or> suffix ''src='' w) \<or> suffix ''action='' w) root
      (\<lambda>s. pass ''action='' root (pass ''src='' root (pass ''href='' root s)))"
    using 2 plain_attrs(3) assms by (rule quotewise_pass) (use suffix_exclusive(2) in blast)
  have c: "(\<lambda>w. ((False \<or> suffix ''href='' w) \<or> suffix ''src='' w) \<or> suffix ''action='' w) = closes_attr"
    by (auto simp: closes_attr_def fun_eq_iff)
  have f: "(\<lambda>s. pass ''action='' root (pass ''src='' root (pass ''href='' root s))) =
      (\<lambda>s. rewriteRootPaths s root)"
    by (simp add: rewriteRootPaths_def attr_pass_pass fun_eq_iff)
  from 3 show ?thesis unfolding c f .
qed


lemma ro_Nil: "replace_occurrences root [] = []"
  by (subst replace_occurrences.simps) (simp add: attr_pattern_def)

lemma ro_copy:
  assumes "\<not> prefix (attr_pattern ''href'') (c # cs)" "\<not> prefix (attr_pattern ''src'') (c # cs)"
    "\<not> prefix (attr_pattern ''action'') (c # cs)"
  shows "replace_occurrences root (c # cs) = c # replace_occurrences root cs"
  by (subst replace_occurrences.simps) (simp add: assms)

lemma ro_match:
  assumes "a \<in> {''href'', ''src'', ''action''}" "prefix (attr_pattern a) s"
  shows "replace_occurrences root s =
     attr_template a root @ replace_occurrences root (drop (length (attr_pattern a)) s)"
proof -
  have ex: "\<not> (prefix (attr_pattern x) s \<and> prefix (attr_pattern y) s)"
    if "\<not> prefix (attr_pattern x) (attr_pattern y)" "\<not> prefix (attr_pattern y) (attr_pattern x)" for x y
    using that prefix_same_cases by blast
  have "\<not> (prefix (attr_pattern ''href'') s \<and> prefix (attr_pattern ''src'') s)"
    "\<not> (prefix (attr_pattern ''href'') s \<and> prefix (attr_pattern ''action'') s)"
    "\<not> (prefix (attr_pattern ''src'') s \<and> prefix (attr_pattern ''action'') s)"
    by (rule ex; simp add: attr_pattern_def)+
  with assms show ?thesis
    by (subst replace_occurrences.simps) auto
qed

lemma pattern_at_quote:
  assumes "dquote \<notin> set x" "a \<in> {''href'', ''src'', ''action''}"
  shows "prefix (attr_pattern a) (x @ dquote # rest) \<longleftrightarrow> x = a @ ''='' \<and> prefix [slash] rest"
  unfolding attr_pattern_eq
  using assms by (intro prefix_at_quote) (auto simp: dquote_def)

lemma ro_no_pattern:
  assumes "a \<in> {''href'', ''src'', ''action''}" "c = slash \<or> c = dquote"
  shows "\<not> prefix (attr_pattern a) (c # t)"
  using assms by (auto simp: attr_pattern_def slash_def dquote_def)

lemma ro_slash: "replace_occurrences root (slash # t) = slash # replace_occurrences root t"
  by (rule ro_copy; rule ro_no_pattern; simp)

lemma ro_plain: "dquote \<notin> set w \<Longrightarrow> replace_occurrences root w = w"
proof (induction w)
  case Nil
  then show ?case by (simp add: ro_Nil)
next
  case (Cons c w)
  then have "\<not> prefix (attr_pattern a) (c # w)" for a
    unfolding attr_pattern_eq by (intro no_prefix_plain)
  with Cons show ?case by (simp add: ro_copy)
qed

lemma ro_quote:
  assumes "dquote \<notin> set w"
  shows "replace_occurrences root (w @ dquote # rest) =
     w @ dquote # (if closes_attr w \<and> prefix [slash] rest then root else []) @
       replace_occurrences root rest"
  using assms
proof (induction w)
  case Nil
  have "replace_occurrences root (dquote # rest) = dquote # replace_occurrences root rest"
    by (rule ro_copy; rule ro_no_pattern; simp)
  then show ?case by (simp add: closes_attr_def)
next
  case (Cons c w)
  have at: "prefix (attr_pattern a) ((c # w) @ dquote # rest) \<longleftrightarrow>
      c # w = a @ ''='' \<and> prefix [slash] rest" if "a \<in> {''href'', ''src'', ''action''}" for a
    using Cons.prems that by (rule pattern_at_quote)
  show ?case
  proof (cases "\<exists>a \<in> {''href'', ''src'', ''action''}. c # w = a @ ''='' \<and> prefix [slash] rest")
    case True
    then obtain a where a: "a \<in> {''href'', ''src'', ''action''}" "c # w = a @ ''=''"
      and "prefix [slash] rest" by blast
    then obtain t where rest: "rest = slash # t" by (auto simp: prefix_def)
    have m: "prefix (attr_pattern a) ((c # w) @ dquote # rest)"
      using at[OF a(1)] a(2) rest by simp
    have cl: "closes_attr (c # w)" using a by (auto simp: closes_attr_def)
    have "replace_occurrences root ((c # w) @ dquote # rest) =
        attr_template a root @
          replace_occurrences root (drop (length (attr_pattern a)) ((c # w) @ dquote # rest))"
      using a(1) m by (rule ro_match)
    also have "drop (length (attr_pattern a)) ((c # w) @ dquote # rest) = t"
      unfolding attr_pattern_eq a(2) rest by simp
    also have "attr_template a root = (c # w) @ dquote # root @ [slash]"
      unfolding a(2) by (simp add: attr_template_def)
    finally show ?thesis using cl rest by (simp add: ro_slash)
  next
    case False
    then have "\<not> prefix (attr_pattern a) ((c # w) @ dquote # rest)"
      if "a \<in> {''href'', ''src'', ''action''}" for a
      using at[OF that] that by blast
    then have "replace_occurrences root ((c # w) @ dquote # rest) =
        c # replace_occurrences root (w @ dquote # rest)"
      by (simp add: ro_copy)
    moreover have "(closes_attr (c # w) \<and> prefix [slash] rest) = (closes_attr w \<and> prefix [slash] rest)"
      using False by (auto simp: closes_attr_def suffix_Cons)
    ultimately show ?thesis using Cons by simp
  qed
qed

lemma ro_quotewise: "quotewise closes_attr root (replace_occurrences root)"
  by (simp add: quotewise_def ro_plain ro_quote)


text \<open>
  Claim C10, amended. For a \<open>rootUri\<close> without double quote and without dollar sign
  that does not begin with a slash, \<open>rewriteRootPaths\<close> is idempotent, and its result
  is the html with every occurrence of the three substrings replaced and nothing else
  changed (the one-pass \<open>replace_occurrences\<close>).
\<close>

theorem rewriteRootPaths_idempotent:
  assumes "dquote \<notin> set rootUri" and "CHR ''$'' \<notin> set rootUri"
    and "\<not> prefix ''/'' rootUri"
  shows "rewriteRootPaths (rewriteRootPaths html rootUri) rootUri = rewriteRootPaths html rootUri \<and>
     rewriteRootPaths html rootUri = replace_occurrences rootUri html"
proof
  have q: "quotewise closes_attr rootUri (\<lambda>s. rewriteRootPaths s rootUri)"
    using assms(2,1) by (rule rewrite_quotewise)
  have np: "\<not> prefix [slash] rootUri" using assms(3) by (simp add: slash_def)
  show "rewriteRootPaths (rewriteRootPaths html rootUri) rootUri = rewriteRootPaths html rootUri"
    using quotewise_idem[OF q closes_attr_local assms(1) np] .
  show "rewriteRootPaths html rootUri = replace_occurrences rootUri html"
    using q ro_quotewise by (rule quotewise_unique)
qed

text \<open>The theorem for a link, an image and a form in one line of html.\<close>

theorem rewriteRootPaths_idempotent_witness:
  "rewriteRootPaths
     (rewriteRootPaths
        (''<a href='' @ [dquote] @ ''/p'' @ [dquote] @ ''><img src='' @ [dquote] @ ''/i.png'' @
          [dquote] @ ''><form action='' @ [dquote] @ ''/f'' @ [dquote] @ ''>'')
        ''https://host/out'')
     ''https://host/out'' =
   ''<a href='' @ [dquote] @ ''https://host/out/p'' @ [dquote] @ ''><img src='' @ [dquote] @
     ''https://host/out/i.png'' @ [dquote] @ ''><form action='' @ [dquote] @
     ''https://host/out/f'' @ [dquote] @ ''>'' \<and>
   replace_occurrences ''https://host/out''
     (''<a href='' @ [dquote] @ ''/p'' @ [dquote] @ ''><img src='' @ [dquote] @ ''/i.png'' @
       [dquote] @ ''><form action='' @ [dquote] @ ''/f'' @ [dquote] @ ''>'') =
   ''<a href='' @ [dquote] @ ''https://host/out/p'' @ [dquote] @ ''><img src='' @ [dquote] @
     ''https://host/out/i.png'' @ [dquote] @ ''><form action='' @ [dquote] @
     ''https://host/out/f'' @ [dquote] @ ''>''"
proof -
  let ?h = "''<a href='' @ [dquote] @ ''/p'' @ [dquote] @ ''><img src='' @ [dquote] @ ''/i.png'' @
       [dquote] @ ''><form action='' @ [dquote] @ ''/f'' @ [dquote] @ ''>''"
  have v: "rewriteRootPaths ?h ''https://host/out'' =
     ''<a href='' @ [dquote] @ ''https://host/out/p'' @ [dquote] @ ''><img src='' @ [dquote] @
     ''https://host/out/i.png'' @ [dquote] @ ''><form action='' @ [dquote] @
     ''https://host/out/f'' @ [dquote] @ ''>''"
    by code_simp
  have h: "dquote \<notin> set ''https://host/out''" "CHR ''$'' \<notin> set ''https://host/out''"
    "\<not> prefix ''/'' ''https://host/out''"
    by (simp_all add: dquote_def)
  note t = rewriteRootPaths_idempotent[OF h, of ?h]
  from t have a: "rewriteRootPaths (rewriteRootPaths ?h ''https://host/out'') ''https://host/out'' =
      rewriteRootPaths ?h ''https://host/out''"
    by (rule conjunct1)
  from t have b: "rewriteRootPaths ?h ''https://host/out'' = replace_occurrences ''https://host/out'' ?h"
    by (rule conjunct2)
  show ?thesis
    by (rule conjI) (rule trans[OF a v], rule trans[OF b[symmetric] v])
qed

text \<open>
  Claim C10 as it is written fails for a \<open>rootUri\<close> that holds a replacement pattern
  of \<^verbatim>\<open>String.prototype.replace\<close>: \<^verbatim>\<open>$&\<close> has no double quote and does not begin with a
  slash, the template then inserts the matched text itself, and a second rewrite
  finds a new match.
\<close>

theorem rewriteRootPaths_dollar_counterexample:
  "dquote \<notin> set ''$&'' \<and> \<not> prefix ''/'' ''$&'' \<and>
   rewriteRootPaths (''href='' @ [dquote, slash]) ''$&'' =
     ''href='' @ [dquote] @ ''href='' @ [dquote, slash, slash] \<and>
   rewriteRootPaths (rewriteRootPaths (''href='' @ [dquote, slash]) ''$&'') ''$&'' \<noteq>
     rewriteRootPaths (''href='' @ [dquote, slash]) ''$&''"
  by code_simp

section \<open>Properties of the path module and of resolveHtmlPathByHugoList\<close>



























lemma index_of_None: "index_of x xs = None \<longleftrightarrow> x \<notin> set xs"
  by (induction xs) (auto split: option.splits)

lemma index_of_Some:
  "x \<in> set xs \<Longrightarrow> index_of x xs = Some (length (takeWhile (\<lambda>y. y \<noteq> x) xs))"
  by (induction xs) auto

lemma scan_rows_find:
  "scan_rows ip il target rel ls =
     (case find (\<lambda>cols. length cols \<le> ip \<or> normalize_backslashes (cols ! ip) = target)
             (map (split_on CHR '','') ls) of
        None \<Rightarrow> Inl (HtmlNotGenerated rel)
      | Some cols \<Rightarrow>
          if length cols \<le> ip then Inl TypeError_undefined
          else if length cols \<le> il \<or> cols ! il = [] then Inl (HugoPermalinkMissing rel)
          else Inr (cols ! il))"
  by (induction ls) (auto simp: Let_def)

text \<open>
  Claim C1, amended. The function returns or throws as follows. It throws when the
  trimmed output has fewer than two lines, and when the header lacks a \<^verbatim>\<open>path\<close> or a
  \<^verbatim>\<open>permalink\<close> column. Otherwise the data rows are read in order up to the first row
  that is too short to have a \<^verbatim>\<open>path\<close> column, or whose \<^verbatim>\<open>path\<close> column equals
  \<^verbatim>\<open>content/\<close> followed by \<open>contentRelPath\<close>, backslashes read as slashes on both sides. It
  throws when there is no such row, when that row is too short (a TypeError), when its
  permalink is missing or empty, and when the permalink is not a URL; in every other
  case it returns the join of \<open>outDir\<close> with the join of the URL's pathname, leading
  slashes stripped, and \<^verbatim>\<open>index.html\<close>.
\<close>

theorem resolveHtmlPathByHugoList_result:
  "resolveHtmlPathByHugoList P url_pathname stdout outDir contentRelPath =
     (let lines = split_on CHR 0x0A (js_trim stdout);
          headers = split_on CHR '','' (hd lines);
          rows = map (split_on CHR '','') (tl lines);
          idxPath = length (takeWhile (\<lambda>h. h \<noteq> ''path'') headers);
          idxPermalink = length (takeWhile (\<lambda>h. h \<noteq> ''permalink'') headers);
          targetPath = normalize_backslashes (''content/'' @ contentRelPath)
      in if length lines < 2 then Inl HugoListEmpty
         else if ''path'' \<notin> set headers \<or> ''permalink'' \<notin> set headers then
           Inl HugoListInvalidFormat
         else
           (case find (\<lambda>cols. length cols \<le> idxPath \<or>
                           normalize_backslashes (cols ! idxPath) = targetPath) rows of
              None \<Rightarrow> Inl (HtmlNotGenerated contentRelPath)
            | Some cols \<Rightarrow>
                if length cols \<le> idxPath then Inl TypeError_undefined
                else if length cols \<le> idxPermalink \<or> cols ! idxPermalink = [] then
                  Inl (HugoPermalinkMissing contentRelPath)
                else
                  (case url_pathname (cols ! idxPermalink) of
                     None \<Rightarrow> Inl (TypeError_invalid_url (cols ! idxPermalink))
                   | Some pathname \<Rightarrow>
                       Inr (path_join P [outDir,
                              path_join P [dropWhile (\<lambda>c. c = CHR ''/'') pathname,
                                           ''index.html'']]))))"
proof -
  let ?lines = "split_on CHR 0x0A (js_trim stdout)"
  let ?headers = "split_on CHR '','' (hd ?lines)"
  show ?thesis
  proof (cases "length ?lines < 2")
    case True
    then show ?thesis
      by (simp add: resolveHtmlPathByHugoList_def find_permalink_def Let_def)
  next
    case long: False
    show ?thesis
    proof (cases "''path'' \<in> set ?headers \<and> ''permalink'' \<in> set ?headers")
      case False
      then have "index_of ''path'' ?headers = None \<or> index_of ''permalink'' ?headers = None"
        by (simp add: index_of_None)
      with long False show ?thesis
        by (auto simp: resolveHtmlPathByHugoList_def find_permalink_def Let_def
            split: option.splits)
    next
      case True
      then have "index_of ''path'' ?headers =
            Some (length (takeWhile (\<lambda>h. h \<noteq> ''path'') ?headers))"
        and "index_of ''permalink'' ?headers =
            Some (length (takeWhile (\<lambda>h. h \<noteq> ''permalink'') ?headers))"
        by (simp_all add: index_of_Some)
      with long True show ?thesis
        by (simp add: resolveHtmlPathByHugoList_def find_permalink_def Let_def scan_rows_find
            split: option.splits sum.splits)
    qed
  qed
qed

text \<open>
  The columns of \<^verbatim>\<open>hugo list all\<close> start with \<^verbatim>\<open>path\<close>; the theorem for a page of a
  site served at \<^verbatim>\<open>http://localhost:1313\<close>.
\<close>

theorem resolveHtmlPathByHugoList_result_witness:
  "resolveHtmlPathByHugoList (posix ''/w'') example_url_pathname
     (''path,slug,title,permalink'' @ [CHR 0x0A] @
      ''content/_index.md,,Home,http://localhost:1313/'' @ [CHR 0x0A] @
      ''content/posts/a.md,,A,http://localhost:1313/posts/a/'' @ [CHR 0x0A])
     ''/store/run/public'' ''posts/a.md'' =
   Inr ''/store/run/public/posts/a/index.html''"
  by (rule trans[OF resolveHtmlPathByHugoList_result]) code_simp

text \<open>
  Claim C1 as it is written lists four causes of an error. There are more: here the
  output has three lines, the header has both columns, and the second data row matches
  and has a permalink that is a URL, but the first data row has no second column, so
  reading its \<^verbatim>\<open>path\<close> column gives \<^verbatim>\<open>undefined\<close> and the function throws a TypeError.
\<close>

theorem resolveHtmlPathByHugoList_short_row_counterexample:
  "split_on CHR 0x0A (js_trim
      (''title,path,permalink'' @ [CHR 0x0A] @ ''Home'' @ [CHR 0x0A] @
       ''A,content/posts/a.md,http://localhost:1313/posts/a/'' @ [CHR 0x0A])) =
     [''title,path,permalink'', ''Home'', ''A,content/posts/a.md,http://localhost:1313/posts/a/''] \<and>
   split_on CHR '','' ''A,content/posts/a.md,http://localhost:1313/posts/a/'' =
     [''A'', ''content/posts/a.md'', ''http://localhost:1313/posts/a/''] \<and>
   example_url_pathname ''http://localhost:1313/posts/a/'' = Some ''/posts/a/'' \<and>
   resolveHtmlPathByHugoList (posix ''/w'') example_url_pathname
     (''title,path,permalink'' @ [CHR 0x0A] @ ''Home'' @ [CHR 0x0A] @
      ''A,content/posts/a.md,http://localhost:1313/posts/a/'' @ [CHR 0x0A])
     ''/store/run/public'' ''posts/a.md'' = Inl TypeError_undefined"
  by code_simp







section \<open>Properties of the install and startup functions\<close>

lemma install_calls_append: "install_calls (xs @ ys) = install_calls xs @ install_calls ys"
  by (induction xs rule: install_calls.induct) auto

lemma downloads_append: "downloads (xs @ ys) = downloads xs @ downloads ys"
  by (induction xs rule: downloads.induct) auto

lemma trace_emit: "trace (emit e w) = trace w @ [e]"
  by (simp add: emit_def)

lemma emit_fields:
  "process_platform (emit e w) = process_platform w"
  "process_arch (emit e w) = process_arch w"
  "pathmod_of (emit e w) = pathmod_of w"
  "globalStorage (emit e w) = globalStorage w"
  "fs_files (emit e w) = fs_files w"
  "fs_fails (emit e w) = fs_fails w"
  "version_stdout (emit e w) = version_stdout w"
  "remote (emit e w) = remote w"
  "cfg_hugoPath (emit e w) = cfg_hugoPath w"
  "cfg_hugoVersion (emit e w) = cfg_hugoVersion w"
  "cfg_useExtended (emit e w) = cfg_useExtended w"
  "previewPanel (emit e w) = previewPanel w"
  by (simp_all add: emit_def)

lemma ensureHugo_userPath:
  assumes "setting_trimmed (cfg_hugoPath w) \<noteq> []"
  shows "ensureHugo forceInstall w =
     (if version_stdout w (setting_trimmed (cfg_hugoPath w)) \<noteq> None
      then Inr (setting_trimmed (cfg_hugoPath w))
      else Inl (HugoInvalid (setting_trimmed (cfg_hugoPath w))),
      emit (ExecVersion (setting_trimmed (cfg_hugoPath w))) w)"
  using assms by (simp add: ensureHugo_def checkHugo_def Let_def)


lemma mapPlatform_table:
  "mapPlatform w =
     (if process_platform w = ''win32'' then Inr Windows
      else if process_platform w = ''darwin'' then Inr Darwin
      else if process_platform w = ''linux'' then Inr Linux
      else Inl (UnsupportedPlatform (process_platform w)))"
  by (simp add: mapPlatform_def Let_def)

lemma install_unsupported_platform:
  assumes "process_platform w \<notin> {''win32'', ''darwin'', ''linux''}"
  shows "installHugoInternal v ext w =
     (Inl (UnsupportedPlatform (process_platform w)), emit (CallInstallHugoInternal v ext) w)"
  using assms by (simp add: installHugoInternal_def mapPlatform_def Let_def emit_fields)

lemma install_unsupported_arch:
  assumes "process_platform w \<in> {''win32'', ''darwin'', ''linux''}"
    "process_arch w \<notin> {''x64'', ''arm64''}"
  shows "installHugoInternal v ext w =
     (Inl (UnsupportedArch (process_arch w)), emit (CallInstallHugoInternal v ext) w)"
  using assms by (auto simp add: installHugoInternal_def mapPlatform_def mapArch_def Let_def emit_fields)

lemma install_downloads:
  assumes "mapPlatform w = Inr platform" "mapArch w = Inr arch"
  shows "downloads (trace (snd (installHugoInternal v ext w))) =
     downloads (trace w) @
       (let binDir = path_join (pathmod_of w) [globalStorage w, ''bin''];
            tmpDir = path_join (pathmod_of w) [globalStorage w, ''tmp''];
            fileName = archive_file_name ext v platform arch
        in if fs_fails w binDir \<or> fs_fails w tmpDir then []
           else [(''https://github.com/gohugoio/hugo/releases/download/v'' @ v @ ''/'' @ fileName,
                  path_join (pathmod_of w) [tmpDir, fileName])])"
proof -
  have p: "mapPlatform (emit e w) = Inr platform" "mapArch (emit e w) = Inr arch" for e
    using assms by (simp_all add: mapPlatform_def mapArch_def emit_fields)
  show ?thesis
    unfolding installHugoInternal_def
    by (simp add: p Let_def mkdirSync_def copyFileSync_def rmrf_def emit_fields trace_emit
        downloads_append checkHugo_def split: fetched.splits bool.splits)
qed

lemma install_calls_install:
  "install_calls (trace (snd (installHugoInternal v ext w))) = install_calls (trace w) @ [(v, ext)]"
  unfolding installHugoInternal_def
  by (simp add: Let_def mkdirSync_def copyFileSync_def rmrf_def emit_fields trace_emit
      install_calls_append checkHugo_def split: fetched.splits sum.splits bool.splits)




lemma quiet_resolve: "quiet w (snd (resolveInstalledHugo w))"
  unfolding resolveInstalledHugo_def checkHugo_def exists_and_runs_def emit_def Let_def quiet_def
    hugoBin_of_def getHugoBinaryName_def existsSync_def
  by (simp add: bool.case_eq_if install_calls_append downloads_append)

lemma quiet_local_version: "quiet w (snd (getLocalHugoVersion hp w))"
  unfolding getLocalHugoVersion_def emit_def quiet_def
  by (simp add: install_calls_append downloads_append split: option.splits)

lemma quiet_trans: "quiet a b \<Longrightarrow> quiet b c \<Longrightarrow> quiet a c"
  unfolding quiet_def by (metis world.surjective world.update_convs(25))

lemma quiet_fields:
  assumes "quiet w w'"
  shows "fs_files w' = fs_files w" "version_stdout w' = version_stdout w"
    "cfg_hugoVersion w' = cfg_hugoVersion w" "cfg_useExtended w' = cfg_useExtended w"
    "previewPanel w' = previewPanel w"
proof -
  from assms have e: "w' = w\<lparr>trace := trace w'\<rparr>" by (simp add: quiet_def)
  show "fs_files w' = fs_files w" by (subst e) simp
  show "version_stdout w' = version_stdout w" by (subst e) simp
  show "cfg_hugoVersion w' = cfg_hugoVersion w" by (subst e) simp
  show "cfg_useExtended w' = cfg_useExtended w" by (subst e) simp
  show "previewPanel w' = previewPanel w" by (subst e) simp
qed

lemma pinned_calls:
  assumes "setting_trimmed (cfg_hugoVersion w) \<noteq> []"
  shows "install_calls (trace (snd (ensurePinnedHugoOnStartup w))) =
     install_calls (trace w) @
       (if pin_mismatch w
        then [(setting_trimmed (cfg_hugoVersion w), setting_or_true (cfg_useExtended w))]
        else [])"
proof (cases "resolveInstalledHugo w")
  case (Pair found w1)
  have q1: "quiet w w1" using quiet_resolve[of w] Pair by simp
  show ?thesis
  proof (cases found)
    case None
    with Pair assms q1 show ?thesis
      by (simp add: ensurePinnedHugoOnStartup_def Let_def install_calls_install quiet_def
          pin_mismatch_def)
  next
    case (Some hp)
    obtain lv w2 where l: "getLocalHugoVersion hp w1 = (lv, w2)" by (cases "getLocalHugoVersion hp w1")
    have q2: "quiet w1 w2" using quiet_local_version[of w1 hp] l by simp
    from Pair Some l assms q1 q2 show ?thesis
      by (auto simp add: ensurePinnedHugoOnStartup_def Let_def install_calls_install quiet_def
          pin_mismatch_def)
  qed
qed

lemma pinned_no_install:
  assumes "setting_trimmed (cfg_hugoVersion w) \<noteq> []"
    and "resolveInstalledHugo w = (Some hp, w1)"
    and "fst (getLocalHugoVersion hp w1) = Some (setting_trimmed (cfg_hugoVersion w))"
  shows "fst (ensurePinnedHugoOnStartup w) = Inr () \<and> quiet w (snd (ensurePinnedHugoOnStartup w))"
proof -
  obtain lv w2 where l: "getLocalHugoVersion hp w1 = (lv, w2)" by (cases "getLocalHugoVersion hp w1")
  have q1: "quiet w w1" using quiet_resolve[of w] assms(2) by simp
  have q2: "quiet w1 w2" using quiet_local_version[of w1 hp] l by simp
  from assms l have "ensurePinnedHugoOnStartup w = (Inr (), w2)"
    by (simp add: ensurePinnedHugoOnStartup_def Let_def)
  with quiet_trans[OF q1 q2] show ?thesis by simp
qed

lemma update_check_pinned:
  assumes "setting_trimmed (cfg_hugoVersion w) \<noteq> []"
  shows "checkHugoUpdateOnStartup num w =
     (Inr (), emit (ConsoleLog (''Hugo version is pinned to '' @ setting_trimmed (cfg_hugoVersion w) @
                                    ''. Skipping update check.'')) w)"
  using assms by (simp add: checkHugoUpdateOnStartup_def Let_def)


lemma pinned_quiet:
  assumes "setting_trimmed (cfg_hugoVersion w) \<noteq> []" and "\<not> pin_mismatch w"
  shows "fst (ensurePinnedHugoOnStartup w) = Inr () \<and> quiet w (snd (ensurePinnedHugoOnStartup w))"
proof -
  obtain found w1 where r: "resolveInstalledHugo w = (found, w1)"
    by (cases "resolveInstalledHugo w")
  with assms(2) obtain hp where hp: "found = Some hp"
    and v: "fst (getLocalHugoVersion hp w1) = Some (setting_trimmed (cfg_hugoVersion w))"
    by (cases found) (auto simp: pin_mismatch_def)
  from assms(1) r[unfolded hp] v show ?thesis by (rule pinned_no_install)
qed

lemma map_of_write_file_same: "map_of (write_file p c fs) p = Some c"
  by (simp add: write_file_def)

text \<open>
  What an install leaves behind on a supported host: it succeeds exactly when the four
  directories and files can be written and the release server has an archive with a
  binary that runs; the binary of the archive is then the managed binary; and nothing
  is written when the first two directories cannot be made or the download fails.
\<close>

lemma install_outcome:
  fixes v :: string and ext :: bool and w :: world
  assumes mp: "mapPlatform w = Inr platform" and ma: "mapArch w = Inr arch"
  defines "binDir \<equiv> path_join (pathmod_of w) [globalStorage w, ''bin'']"
    and "tmpDir \<equiv> path_join (pathmod_of w) [globalStorage w, ''tmp'']"
  defines "binPath \<equiv> path_join (pathmod_of w) [binDir, getHugoBinaryName w]"
    and "extractDir \<equiv> path_join (pathmod_of w) [tmpDir, ''extract'']"
    and "url \<equiv> ''https://github.com/gohugoio/hugo/releases/download/v'' @ v @ ''/'' @
                 archive_file_name ext v platform arch"
  shows "fst (installHugoInternal v ext w) = Inr () \<longleftrightarrow>
           \<not> fs_fails w binDir \<and> \<not> fs_fails w tmpDir \<and> \<not> fs_fails w extractDir \<and>
           \<not> fs_fails w binPath \<and> (\<exists>content text. remote w url = Binary content (Some text))"
    and "\<not> fs_fails w binDir \<and> \<not> fs_fails w tmpDir \<and> \<not> fs_fails w extractDir \<and>
         \<not> fs_fails w binPath \<and> remote w url = Binary content out \<Longrightarrow>
           map_of (fs_files (snd (installHugoInternal v ext w))) binPath = Some content \<and>
           version_stdout (snd (installHugoInternal v ext w)) binPath = out"
    and "fs_fails w binDir \<or> fs_fails w tmpDir \<or> remote w url = DownloadError \<Longrightarrow>
           fs_files (snd (installHugoInternal v ext w)) = fs_files w \<and>
           version_stdout (snd (installHugoInternal v ext w)) = version_stdout w"
proof -
  have p: "mapPlatform (emit e w) = Inr platform" "mapArch (emit e w) = Inr arch" for e
    using assms(1,2) by (simp_all add: mapPlatform_def mapArch_def emit_fields)
  have g: "getHugoBinaryName (emit e w) = getHugoBinaryName w" for e
    by (simp add: getHugoBinaryName_def emit_fields)
  show "fst (installHugoInternal v ext w) = Inr () \<longleftrightarrow>
           \<not> fs_fails w binDir \<and> \<not> fs_fails w tmpDir \<and> \<not> fs_fails w extractDir \<and>
           \<not> fs_fails w binPath \<and> (\<exists>content text. remote w url = Binary content (Some text))"
    unfolding installHugoInternal_def binDir_def tmpDir_def binPath_def extractDir_def url_def
    by (auto simp add: p g Let_def mkdirSync_def copyFileSync_def rmrf_def emit_fields
        checkHugo_def bool.case_eq_if split: fetched.splits)
  show "map_of (fs_files (snd (installHugoInternal v ext w))) binPath = Some content \<and>
           version_stdout (snd (installHugoInternal v ext w)) binPath = out"
    if "\<not> fs_fails w binDir \<and> \<not> fs_fails w tmpDir \<and> \<not> fs_fails w extractDir \<and>
         \<not> fs_fails w binPath \<and> remote w url = Binary content out"
    using that
    unfolding installHugoInternal_def binDir_def tmpDir_def binPath_def extractDir_def url_def
    by (auto simp add: p g Let_def mkdirSync_def copyFileSync_def rmrf_def emit_fields
        checkHugo_def map_of_write_file_same bool.case_eq_if)
  show "fs_files (snd (installHugoInternal v ext w)) = fs_files w \<and>
           version_stdout (snd (installHugoInternal v ext w)) = version_stdout w"
    if "fs_fails w binDir \<or> fs_fails w tmpDir \<or> remote w url = DownloadError"
    using that
    unfolding installHugoInternal_def binDir_def tmpDir_def binPath_def extractDir_def url_def
    by (auto simp add: p g Let_def mkdirSync_def copyFileSync_def rmrf_def emit_fields
        checkHugo_def bool.case_eq_if split: fetched.splits)
qed

lemma map_emit:
  "mapPlatform (emit e w) = mapPlatform w" "mapArch (emit e w) = mapArch w"
  by (simp_all add: mapPlatform_def mapArch_def emit_fields)

lemma install_unsupported:
  "mapPlatform w = Inl e \<Longrightarrow>
     installHugoInternal v ext w = (Inl e, emit (CallInstallHugoInternal v ext) w)"
  "mapPlatform w = Inr platform \<Longrightarrow> mapArch w = Inl e \<Longrightarrow>
     installHugoInternal v ext w = (Inl e, emit (CallInstallHugoInternal v ext) w)"
  unfolding installHugoInternal_def Let_def map_emit by simp_all

text \<open>Between two worlds that differ in the trace only, what is read of the host is the same.\<close>

lemma quiet_host:
  assumes "quiet w w'"
  shows "mapPlatform w' = mapPlatform w" "mapArch w' = mapArch w"
    "getHugoBinaryName w' = getHugoBinaryName w" "pathmod_of w' = pathmod_of w"
    "globalStorage w' = globalStorage w" "fs_fails w' = fs_fails w" "remote w' = remote w"
    "downloads (trace w') = downloads (trace w)"
proof -
  from assms have e: "w' = w\<lparr>trace := trace w'\<rparr>" by (simp add: quiet_def)
  show "mapPlatform w' = mapPlatform w" by (subst e) (simp add: mapPlatform_def)
  show "mapArch w' = mapArch w" by (subst e) (simp add: mapArch_def)
  show "getHugoBinaryName w' = getHugoBinaryName w" by (subst e) (simp add: getHugoBinaryName_def)
  show "pathmod_of w' = pathmod_of w" by (subst e) simp
  show "globalStorage w' = globalStorage w" by (subst e) simp
  show "fs_fails w' = fs_fails w" by (subst e) simp
  show "remote w' = remote w" by (subst e) simp
  show "downloads (trace w') = downloads (trace w)" using assms by (simp add: quiet_def)
qed

text \<open>
  With a pin that the resolved binary does not meet, the startup check is one call of
  \<open>installHugoInternal\<close> for the pin, in a world that differs from the first in the
  trace of the probes only.
\<close>

lemma pinned_mismatch_install:
  assumes "setting_trimmed (cfg_hugoVersion w) \<noteq> []" and "pin_mismatch w"
  shows "\<exists>w'. quiet w w' \<and>
     ensurePinnedHugoOnStartup w =
       installHugoInternal (setting_trimmed (cfg_hugoVersion w))
         (setting_or_true (cfg_useExtended w)) w'"
proof (cases "resolveInstalledHugo w")
  case (Pair found w1)
  have q1: "quiet w w1" using quiet_resolve[of w] Pair by simp
  show ?thesis
  proof (cases found)
    case None
    with Pair assms(1) q1 show ?thesis
      by (intro exI[of _ w1]) (simp add: ensurePinnedHugoOnStartup_def Let_def)
  next
    case (Some hp)
    obtain lv w2 where l: "getLocalHugoVersion hp w1 = (lv, w2)"
      by (cases "getLocalHugoVersion hp w1")
    have q2: "quiet w1 w2" using quiet_local_version[of w1 hp] l by simp
    from assms(2) Pair Some l have "lv \<noteq> Some (setting_trimmed (cfg_hugoVersion w))"
      by (simp add: pin_mismatch_def)
    with Pair Some l assms(1) quiet_trans[OF q1 q2] show ?thesis
      by (intro exI[of _ w2]) (auto simp add: ensurePinnedHugoOnStartup_def Let_def)
  qed
qed

text \<open>
  Claim C3, as the code has it. With a pin, \<open>ensurePinnedHugoOnStartup\<close> calls
  \<open>installHugoInternal\<close> once, for the pinned version and the flavour of the settings,
  when no binary is resolved or the resolved binary reports another version. That call
  throws on a platform or an architecture outside the tables, and nothing is written
  or downloaded. On a supported host it downloads the archive of the pinned release
  and nothing else; it returns normally exactly when the directories and the binary can
  be written and the archive holds a binary that runs; the managed binary is then the
  one of the pinned release; and when the first directories cannot be made or the
  download fails, every file is as it was. When the resolved binary reports the pinned
  version, nothing is installed, downloaded or written. And \<open>checkHugoUpdateOnStartup\<close>
  then does nothing but write its line to the console.
\<close>

theorem ensurePinnedHugoOnStartup_installs_pin:
  fixes w :: world
  assumes "setting_trimmed (cfg_hugoVersion w) \<noteq> []"
  shows
    "(let pinned = setting_trimmed (cfg_hugoVersion w);
          useExtended = setting_or_true (cfg_useExtended w);
          r = ensurePinnedHugoOnStartup w;
          binDir = path_join (pathmod_of w) [globalStorage w, ''bin''];
          tmpDir = path_join (pathmod_of w) [globalStorage w, ''tmp''];
          extractDir = path_join (pathmod_of w) [tmpDir, ''extract''];
          binPath = path_join (pathmod_of w) [binDir, getHugoBinaryName w];
          fileName = archive_file_name useExtended pinned platform arch;
          url = ''https://github.com/gohugoio/hugo/releases/download/v'' @ pinned @ ''/'' @
                  fileName;
          writable = (\<not> fs_fails w binDir \<and> \<not> fs_fails w tmpDir \<and>
                      \<not> fs_fails w extractDir \<and> \<not> fs_fails w binPath)
      in
        install_calls (trace (snd r)) =
          install_calls (trace w) @
            (if pin_mismatch w then [(pinned, useExtended)] else []) \<and>
        (pin_mismatch w \<and> mapPlatform w = Inl e \<longrightarrow>
           fst r = Inl e \<and> fs_files (snd r) = fs_files w \<and>
           version_stdout (snd r) = version_stdout w \<and>
           downloads (trace (snd r)) = downloads (trace w)) \<and>
        (pin_mismatch w \<and> mapPlatform w = Inr platform \<and> mapArch w = Inl e \<longrightarrow>
           fst r = Inl e \<and> fs_files (snd r) = fs_files w \<and>
           version_stdout (snd r) = version_stdout w \<and>
           downloads (trace (snd r)) = downloads (trace w)) \<and>
        (pin_mismatch w \<and> mapPlatform w = Inr platform \<and> mapArch w = Inr arch \<longrightarrow>
           downloads (trace (snd r)) =
             downloads (trace w) @
               (if fs_fails w binDir \<or> fs_fails w tmpDir then []
                else [(url, path_join (pathmod_of w) [tmpDir, fileName])]) \<and>
           (fst r = Inr () \<longleftrightarrow>
              writable \<and> (\<exists>content text. remote w url = Binary content (Some text))) \<and>
           (writable \<and> remote w url = Binary content out \<longrightarrow>
              map_of (fs_files (snd r)) binPath = Some content \<and>
              version_stdout (snd r) binPath = out) \<and>
           (fs_fails w binDir \<or> fs_fails w tmpDir \<or> remote w url = DownloadError \<longrightarrow>
              fs_files (snd r) = fs_files w \<and> version_stdout (snd r) = version_stdout w)) \<and>
        (\<not> pin_mismatch w \<longrightarrow>
           fst r = Inr () \<and> downloads (trace (snd r)) = downloads (trace w) \<and>
           fs_files (snd r) = fs_files w \<and> version_stdout (snd r) = version_stdout w) \<and>
        checkHugoUpdateOnStartup num w =
          (Inr (), emit (ConsoleLog (''Hugo version is pinned to '' @ pinned @
                                      ''. Skipping update check.'')) w))"
proof -
  let ?pin = "setting_trimmed (cfg_hugoVersion w)"
  let ?ext = "setting_or_true (cfg_useExtended w)"
  let ?r = "ensurePinnedHugoOnStartup w"
  let ?binDir = "path_join (pathmod_of w) [globalStorage w, ''bin'']"
  let ?tmpDir = "path_join (pathmod_of w) [globalStorage w, ''tmp'']"
  let ?extractDir = "path_join (pathmod_of w) [?tmpDir, ''extract'']"
  let ?binPath = "path_join (pathmod_of w) [?binDir, getHugoBinaryName w]"
  let ?fileName = "archive_file_name ?ext ?pin platform arch"
  let ?url = "''https://github.com/gohugoio/hugo/releases/download/v'' @ ?pin @ ''/'' @ ?fileName"
  let ?writable = "\<not> fs_fails w ?binDir \<and> \<not> fs_fails w ?tmpDir \<and>
                      \<not> fs_fails w ?extractDir \<and> \<not> fs_fails w ?binPath"
  have calls: "install_calls (trace (snd ?r)) =
          install_calls (trace w) @ (if pin_mismatch w then [(?pin, ?ext)] else [])"
    using assms by (rule pinned_calls)
  have upd: "checkHugoUpdateOnStartup num w =
          (Inr (), emit (ConsoleLog (''Hugo version is pinned to '' @ ?pin @
                                      ''. Skipping update check.'')) w)"
    using assms by (rule update_check_pinned)
  have same: "\<not> pin_mismatch w \<longrightarrow>
           fst ?r = Inr () \<and> downloads (trace (snd ?r)) = downloads (trace w) \<and>
           fs_files (snd ?r) = fs_files w \<and> version_stdout (snd ?r) = version_stdout w"
  proof
    assume n: "\<not> pin_mismatch w"
    note q = pinned_quiet[OF assms n]
    note q2 = q[THEN conjunct2]
    from q[THEN conjunct1] quiet_host(8)[OF q2] quiet_fields(1,2)[OF q2]
    show "fst ?r = Inr () \<and> downloads (trace (snd ?r)) = downloads (trace w) \<and>
           fs_files (snd ?r) = fs_files w \<and> version_stdout (snd ?r) = version_stdout w"
      by (intro conjI)
  qed
  have none: "fst ?r = Inl e \<and> fs_files (snd ?r) = fs_files w \<and>
           version_stdout (snd ?r) = version_stdout w \<and>
           downloads (trace (snd ?r)) = downloads (trace w)"
    if m: "pin_mismatch w"
      and u: "mapPlatform w = Inl e \<or> (mapPlatform w = Inr platform \<and> mapArch w = Inl e)"
  proof -
    from pinned_mismatch_install[OF assms m] obtain w' where q: "quiet w w'"
      and eq: "?r = installHugoInternal ?pin ?ext w'" by blast
    note h = quiet_host[OF q] quiet_fields[OF q]
    from u have "installHugoInternal ?pin ?ext w' =
        (Inl e, emit (CallInstallHugoInternal ?pin ?ext) w')"
      using install_unsupported(1)[where w = w' and e = e and v = ?pin and ext = ?ext]
        install_unsupported(2)[where w = w' and platform = platform and e = e and v = ?pin
          and ext = ?ext]
      by (auto simp: h(1,2))
    with eq have "?r = (Inl e, emit (CallInstallHugoInternal ?pin ?ext) w')" by simp
    then show ?thesis
      by (simp add: emit_fields trace_emit downloads_append h)
  qed
  have sup: "downloads (trace (snd ?r)) =
             downloads (trace w) @
               (if fs_fails w ?binDir \<or> fs_fails w ?tmpDir then []
                else [(?url, path_join (pathmod_of w) [?tmpDir, ?fileName])]) \<and>
           (fst ?r = Inr () \<longleftrightarrow>
              ?writable \<and> (\<exists>content text. remote w ?url = Binary content (Some text))) \<and>
           (?writable \<and> remote w ?url = Binary content out \<longrightarrow>
              map_of (fs_files (snd ?r)) ?binPath = Some content \<and>
              version_stdout (snd ?r) ?binPath = out) \<and>
           (fs_fails w ?binDir \<or> fs_fails w ?tmpDir \<or> remote w ?url = DownloadError \<longrightarrow>
              fs_files (snd ?r) = fs_files w \<and> version_stdout (snd ?r) = version_stdout w)"
    if m: "pin_mismatch w" and mp: "mapPlatform w = Inr platform" and ma: "mapArch w = Inr arch"
  proof -
    from pinned_mismatch_install[OF assms m] obtain w' where q: "quiet w w'"
      and eq: "?r = installHugoInternal ?pin ?ext w'" by blast
    note h = quiet_host[OF q] quiet_fields[OF q]
    have mp': "mapPlatform w' = Inr platform" and ma': "mapArch w' = Inr arch"
      using mp ma by (simp_all add: h)
    have d: "downloads (trace (snd ?r)) =
             downloads (trace w) @
               (if fs_fails w ?binDir \<or> fs_fails w ?tmpDir then []
                else [(?url, path_join (pathmod_of w) [?tmpDir, ?fileName])])"
      unfolding eq install_downloads[OF mp' ma'] by (simp add: h Let_def)
    have s: "fst ?r = Inr () \<longleftrightarrow>
              ?writable \<and> (\<exists>content text. remote w ?url = Binary content (Some text))"
      unfolding eq using install_outcome(1)[OF mp' ma', of ?pin ?ext] by (simp add: h)
    have b: "?writable \<and> remote w ?url = Binary content out \<longrightarrow>
              map_of (fs_files (snd ?r)) ?binPath = Some content \<and>
              version_stdout (snd ?r) ?binPath = out"
      unfolding eq using install_outcome(2)[OF mp' ma', of ?pin ?ext content out]
      by (simp add: h)
    have f: "fs_fails w ?binDir \<or> fs_fails w ?tmpDir \<or> remote w ?url = DownloadError \<longrightarrow>
              fs_files (snd ?r) = fs_files w \<and> version_stdout (snd ?r) = version_stdout w"
      unfolding eq using install_outcome(3)[OF mp' ma', of ?pin ?ext]
      by (simp add: h)
    from d s b f show ?thesis by (intro conjI)
  qed
  show ?thesis
    unfolding Let_def
  proof (intro conjI impI)
    show "install_calls (trace (snd ?r)) =
          install_calls (trace w) @ (if pin_mismatch w then [(?pin, ?ext)] else [])"
      by (rule calls)
  qed (use upd same none sup in blast)+
qed

text \<open>
  The theorem on three hosts with the pin \<^verbatim>\<open>0.152.2\<close> (written with spaces around it in the
  settings): the Linux host of the examples, which has no Hugo and gets the binary of
  the release; the same host with a 32-bit architecture, where the install throws; and
  a host whose \<^verbatim>\<open>hugo\<close> on the PATH reports the pinned version.
\<close>

theorem ensurePinnedHugoOnStartup_installs_pin_witness:
  "fst (ensurePinnedHugoOnStartup (example_world\<lparr>cfg_hugoVersion := Some '' 0.152.2 ''\<rparr>)) =
     Inr () \<and>
   map_of (fs_files (snd (ensurePinnedHugoOnStartup
       (example_world\<lparr>cfg_hugoVersion := Some '' 0.152.2 ''\<rparr>)))) ''/store/bin/hugo'' =
     Some ''ELF'' \<and>
   version_stdout (snd (ensurePinnedHugoOnStartup
       (example_world\<lparr>cfg_hugoVersion := Some '' 0.152.2 ''\<rparr>))) ''/store/bin/hugo'' =
     Some ''hugo v0.152.2+extended linux/amd64'' \<and>
   downloads (trace (snd (ensurePinnedHugoOnStartup
       (example_world\<lparr>cfg_hugoVersion := Some '' 0.152.2 ''\<rparr>)))) =
     [(''https://github.com/gohugoio/hugo/releases/download/v0.152.2/hugo_extended_0.152.2_linux-amd64.tar.gz'',
       ''/store/tmp/hugo_extended_0.152.2_linux-amd64.tar.gz'')] \<and>
   install_calls (trace (snd (ensurePinnedHugoOnStartup
       (example_world\<lparr>cfg_hugoVersion := Some '' 0.152.2 ''\<rparr>)))) = [(''0.152.2'', True)] \<and>
   fst (ensurePinnedHugoOnStartup
       (example_world\<lparr>cfg_hugoVersion := Some '' 0.152.2 '', process_arch := ''ia32''\<rparr>)) =
     Inl (UnsupportedArch ''ia32'') \<and>
   fs_files (snd (ensurePinnedHugoOnStartup
       (example_world\<lparr>cfg_hugoVersion := Some '' 0.152.2 '', process_arch := ''ia32''\<rparr>))) = [] \<and>
   fst (ensurePinnedHugoOnStartup
      (example_world\<lparr>cfg_hugoVersion := Some '' 0.152.2 '',
         version_stdout := (\<lambda>cmd. if cmd = ''hugo'' then Some ''hugo v0.152.2+extended'' else None)\<rparr>))
     = Inr () \<and>
   install_calls (trace (snd (ensurePinnedHugoOnStartup
      (example_world\<lparr>cfg_hugoVersion := Some '' 0.152.2 '',
         version_stdout := (\<lambda>cmd. if cmd = ''hugo'' then Some ''hugo v0.152.2+extended'' else None)\<rparr>))))
     = [] \<and>
   fst (checkHugoUpdateOnStartup Number_digits
      (example_world\<lparr>cfg_hugoVersion := Some '' 0.152.2 ''\<rparr>)) = Inr ()"
proof -
  let ?W1 = "example_world\<lparr>cfg_hugoVersion := Some '' 0.152.2 ''\<rparr>"
  let ?W2 = "example_world\<lparr>cfg_hugoVersion := Some '' 0.152.2 '',
         version_stdout := (\<lambda>cmd. if cmd = ''hugo'' then Some ''hugo v0.152.2+extended'' else None)\<rparr>"
  let ?W3 = "example_world\<lparr>cfg_hugoVersion := Some '' 0.152.2 '', process_arch := ''ia32''\<rparr>"
  let ?url = "''https://github.com/gohugoio/hugo/releases/download/v0.152.2/hugo_extended_0.152.2_linux-amd64.tar.gz''"
  have pin: "setting_trimmed (cfg_hugoVersion ?W1) = ''0.152.2''"
    "setting_trimmed (cfg_hugoVersion ?W2) = ''0.152.2''"
    "setting_trimmed (cfg_hugoVersion ?W3) = ''0.152.2''"
    by code_simp+
  have h1: "setting_trimmed (cfg_hugoVersion ?W1) \<noteq> []" unfolding pin by simp
  have h2: "setting_trimmed (cfg_hugoVersion ?W2) \<noteq> []" unfolding pin by simp
  have h3: "setting_trimmed (cfg_hugoVersion ?W3) \<noteq> []" unfolding pin by simp
  have ext: "setting_or_true (cfg_useExtended ?W1) = True"
    "setting_or_true (cfg_useExtended ?W2) = True" "setting_or_true (cfg_useExtended ?W3) = True"
    by (simp_all add: example_world_def setting_or_true_def)
  have m1: "pin_mismatch ?W1" by code_simp
  have m3: "pin_mismatch ?W3" by code_simp
  have n2: "\<not> pin_mismatch ?W2" by code_simp
  have host1: "mapPlatform ?W1 = Inr Linux" "mapArch ?W1 = Inr Amd64"
    "getHugoBinaryName ?W1 = ''hugo''"
    by (simp_all add: example_world_def mapPlatform_def mapArch_def getHugoBinaryName_def)
  have host3: "mapPlatform ?W3 = Inr Linux" "mapArch ?W3 = Inl (UnsupportedArch ''ia32'')"
    by (simp_all add: example_world_def mapPlatform_def mapArch_def)
  have f1: "globalStorage ?W1 = ''/store''" "trace ?W1 = []" "fs_fails ?W1 = (\<lambda>p. False)"
    "path_join (pathmod_of ?W1) = posix_join" "fs_files ?W3 = []"
    by (simp_all add: example_world_def posix_def)
  have j: "posix_join [''/store'', ''bin''] = ''/store/bin''"
    "posix_join [''/store'', ''tmp''] = ''/store/tmp''"
    "posix_join [''/store/bin'', ''hugo''] = ''/store/bin/hugo''"
    "posix_join [''/store/tmp'', ''extract''] = ''/store/tmp/extract''"
    "posix_join [''/store/tmp'', ''hugo_extended_0.152.2_linux-amd64.tar.gz''] =
       ''/store/tmp/hugo_extended_0.152.2_linux-amd64.tar.gz''"
    by code_simp+
  have a: "archive_file_name True ''0.152.2'' Linux Amd64 =
      ''hugo_extended_0.152.2_linux-amd64.tar.gz''"
    by code_simp
  have r: "remote ?W1 ?url = Binary ''ELF'' (Some ''hugo v0.152.2+extended linux/amd64'')"
    by (simp add: example_world_def)
  note t1 = ensurePinnedHugoOnStartup_installs_pin[OF h1, where num = Number_digits
      and platform = Linux and arch = Amd64 and content = "''ELF''"
      and out = "Some ''hugo v0.152.2+extended linux/amd64''", unfolded Let_def pin ext]
  note t2 = ensurePinnedHugoOnStartup_installs_pin[OF h2, where num = Number_digits,
      unfolded Let_def pin ext]
  note t3 = ensurePinnedHugoOnStartup_installs_pin[OF h3, where num = Number_digits
      and platform = Linux and e = "UnsupportedArch ''ia32''", unfolded Let_def pin ext]
  note t1' = t1[simplified f1 j a r host1 m1, simplified]
  note t2' = t2[simplified n2, simplified]
  note t3' = t3[simplified host3 m3 f1, simplified]
  have e0: "trace example_world = []" "fs_files example_world = []"
    by (simp_all add: example_world_def)
  have r0: "remote example_world ?url =
      Binary ''ELF'' (Some ''hugo v0.152.2+extended linux/amd64'')"
    by (simp add: example_world_def)
  from t1' t2' t3' show ?thesis by (simp add: e0 r0)
qed

text \<open>
  Claim C3 as it is written says that the pinned version is installed whenever no
  binary is resolved. On two hosts with the pin \<^verbatim>\<open>0.152.2\<close> and no Hugo, the first running
  FreeBSD and the second unable to reach the release server, the startup check throws
  and has installed nothing: no file is written, and on the first host nothing is
  downloaded.
\<close>

theorem ensurePinnedHugoOnStartup_no_install_counterexample:
  "setting_trimmed (cfg_hugoVersion
      (example_world\<lparr>cfg_hugoVersion := Some ''0.152.2'', process_platform := ''freebsd''\<rparr>)) =
     ''0.152.2'' \<and>
   fst (resolveInstalledHugo
      (example_world\<lparr>cfg_hugoVersion := Some ''0.152.2'', process_platform := ''freebsd''\<rparr>)) =
     None \<and>
   fst (ensurePinnedHugoOnStartup
      (example_world\<lparr>cfg_hugoVersion := Some ''0.152.2'', process_platform := ''freebsd''\<rparr>)) =
     Inl (UnsupportedPlatform ''freebsd'') \<and>
   fs_files (snd (ensurePinnedHugoOnStartup
      (example_world\<lparr>cfg_hugoVersion := Some ''0.152.2'', process_platform := ''freebsd''\<rparr>))) =
     [] \<and>
   downloads (trace (snd (ensurePinnedHugoOnStartup
      (example_world\<lparr>cfg_hugoVersion := Some ''0.152.2'', process_platform := ''freebsd''\<rparr>)))) =
     [] \<and>
   fst (resolveInstalledHugo
      (example_world\<lparr>cfg_hugoVersion := Some ''0.152.2'', remote := (\<lambda>url. DownloadError)\<rparr>)) =
     None \<and>
   fst (ensurePinnedHugoOnStartup
      (example_world\<lparr>cfg_hugoVersion := Some ''0.152.2'', remote := (\<lambda>url. DownloadError)\<rparr>)) =
     Inl (DownloadFailed
       ''https://github.com/gohugoio/hugo/releases/download/v0.152.2/hugo_extended_0.152.2_linux-amd64.tar.gz'') \<and>
   fs_files (snd (ensurePinnedHugoOnStartup
      (example_world\<lparr>cfg_hugoVersion := Some ''0.152.2'', remote := (\<lambda>url. DownloadError)\<rparr>))) =
     []"
  by code_simp

text \<open>
  Claim C8. With a configured path, \<open>ensureHugo\<close> runs that path with \<^verbatim>\<open>version\<close> once
  and does nothing else: it returns the path when the command succeeds and throws the
  invalid-hugoPath error when it fails, for both values of \<open>forceInstall\<close>; the trace
  gains no call of \<open>installHugoInternal\<close>, no download and no question to the user.
\<close>

theorem ensureHugo_configured_path:
  assumes "setting_trimmed (cfg_hugoPath w) \<noteq> []"
  shows
    "ensureHugo forceInstall w =
       (if version_stdout w (setting_trimmed (cfg_hugoPath w)) \<noteq> None
        then Inr (setting_trimmed (cfg_hugoPath w))
        else Inl (HugoInvalid (setting_trimmed (cfg_hugoPath w))),
        emit (ExecVersion (setting_trimmed (cfg_hugoPath w))) w) \<and>
     install_calls (trace (snd (ensureHugo forceInstall w))) = install_calls (trace w) \<and>
     downloads (trace (snd (ensureHugo forceInstall w))) = downloads (trace w) \<and>
     trace (snd (ensureHugo forceInstall w)) =
       trace w @ [ExecVersion (setting_trimmed (cfg_hugoPath w))]"
  using ensureHugo_userPath[OF assms, of forceInstall]
  by (simp add: trace_emit install_calls_append downloads_append)

theorem ensureHugo_configured_path_witness:
  "ensureHugo True (example_world\<lparr>cfg_hugoPath := Some '' /opt/hugo ''\<rparr>) =
     (Inl (HugoInvalid ''/opt/hugo''),
      emit (ExecVersion ''/opt/hugo'') (example_world\<lparr>cfg_hugoPath := Some '' /opt/hugo ''\<rparr>)) \<and>
   fst (ensureHugo False
     (example_world\<lparr>cfg_hugoPath := Some '' /opt/hugo '',
        version_stdout := (\<lambda>cmd. if cmd = ''/opt/hugo'' then Some ''hugo v0.150.0'' else None)\<rparr>)) =
     Inr ''/opt/hugo''"
proof -
  let ?W1 = "example_world\<lparr>cfg_hugoPath := Some '' /opt/hugo ''\<rparr>"
  let ?W2 = "example_world\<lparr>cfg_hugoPath := Some '' /opt/hugo '',
        version_stdout := (\<lambda>cmd. if cmd = ''/opt/hugo'' then Some ''hugo v0.150.0'' else None)\<rparr>"
  have p1: "setting_trimmed (cfg_hugoPath ?W1) = ''/opt/hugo''" by code_simp
  have p2: "setting_trimmed (cfg_hugoPath ?W2) = ''/opt/hugo''" by code_simp
  have h1: "setting_trimmed (cfg_hugoPath ?W1) \<noteq> []" unfolding p1 by simp
  have h2: "setting_trimmed (cfg_hugoPath ?W2) \<noteq> []" unfolding p2 by simp
  have v1: "version_stdout ?W1 ''/opt/hugo'' = None" by (simp add: example_world_def)
  have v2: "version_stdout ?W2 ''/opt/hugo'' \<noteq> None" by simp
  from ensureHugo_configured_path[OF h1, of True, THEN conjunct1]
  have r1: "ensureHugo True ?W1 = (Inl (HugoInvalid ''/opt/hugo''), emit (ExecVersion ''/opt/hugo'') ?W1)"
    unfolding p1 v1 by simp
  from ensureHugo_configured_path[OF h2, of False, THEN conjunct1]
  have r2: "fst (ensureHugo False ?W2) = Inr ''/opt/hugo''"
    unfolding p2 using v2 by simp
  from r1 r2 show ?thesis by (intro conjI)
qed

text \<open>
  Claim C5. \<open>installHugoInternal\<close> maps \<^verbatim>\<open>process.platform\<close> and \<^verbatim>\<open>process.arch\<close> first and
  throws for every value outside the two tables, having done nothing but start; on a
  supported host the only download it starts is that of the archive named by the
  flavour, the version, the platform, the architecture and the extension of the
  platform, into the \<^verbatim>\<open>tmp\<close> directory of the storage (and none when one of the two
  directories cannot be made).
\<close>

theorem installHugoInternal_archive_name:
  "(process_platform w \<notin> {''win32'', ''darwin'', ''linux''} \<longrightarrow>
      installHugoInternal v useExtended w =
        (Inl (UnsupportedPlatform (process_platform w)),
         emit (CallInstallHugoInternal v useExtended) w)) \<and>
   (process_platform w \<in> {''win32'', ''darwin'', ''linux''} \<and>
    process_arch w \<notin> {''x64'', ''arm64''} \<longrightarrow>
      installHugoInternal v useExtended w =
        (Inl (UnsupportedArch (process_arch w)),
         emit (CallInstallHugoInternal v useExtended) w)) \<and>
   (process_platform w \<in> {''win32'', ''darwin'', ''linux''} \<and>
    process_arch w \<in> {''x64'', ''arm64''} \<longrightarrow>
      (let platform = (if process_platform w = ''win32'' then ''windows''
                       else process_platform w);
           arch = (if process_arch w = ''x64'' then ''amd64'' else ''arm64'');
           fileName = (if useExtended then ''hugo_extended'' else ''hugo'') @ ''_'' @ v @ ''_'' @
                      platform @ ''-'' @ arch @
                      (if process_platform w = ''win32'' then ''.zip'' else ''.tar.gz'');
           binDir = path_join (pathmod_of w) [globalStorage w, ''bin''];
           tmpDir = path_join (pathmod_of w) [globalStorage w, ''tmp'']
       in downloads (trace (snd (installHugoInternal v useExtended w))) =
            downloads (trace w) @
              (if fs_fails w binDir \<or> fs_fails w tmpDir then []
               else [(''https://github.com/gohugoio/hugo/releases/download/v'' @ v @ ''/'' @
                        fileName,
                      path_join (pathmod_of w) [tmpDir, fileName])])))"
proof (intro conjI impI)
  assume "process_platform w \<notin> {''win32'', ''darwin'', ''linux''}"
  then show "installHugoInternal v useExtended w =
        (Inl (UnsupportedPlatform (process_platform w)),
         emit (CallInstallHugoInternal v useExtended) w)"
    by (rule install_unsupported_platform)
next
  assume "process_platform w \<in> {''win32'', ''darwin'', ''linux''} \<and>
    process_arch w \<notin> {''x64'', ''arm64''}"
  then show "installHugoInternal v useExtended w =
        (Inl (UnsupportedArch (process_arch w)),
         emit (CallInstallHugoInternal v useExtended) w)"
    using install_unsupported_arch by blast
next
  assume a: "process_platform w \<in> {''win32'', ''darwin'', ''linux''} \<and>
    process_arch w \<in> {''x64'', ''arm64''}"
  define platform where "platform =
    (if process_platform w = ''win32'' then Windows
     else if process_platform w = ''darwin'' then Darwin else Linux)"
  define arch where "arch = (if process_arch w = ''x64'' then Amd64 else Arm64)"
  have mp: "mapPlatform w = Inr platform"
    using a by (auto simp: mapPlatform_def platform_def)
  have ma: "mapArch w = Inr arch"
    using a by (auto simp: mapArch_def arch_def)
  have n: "archive_file_name useExtended v platform arch =
     (if useExtended then ''hugo_extended'' else ''hugo'') @ ''_'' @ v @ ''_'' @
       (if process_platform w = ''win32'' then ''windows'' else process_platform w) @ ''-'' @
       (if process_arch w = ''x64'' then ''amd64'' else ''arm64'') @
       (if process_platform w = ''win32'' then ''.zip'' else ''.tar.gz'')"
    using a by (auto simp: archive_file_name_def platform_def arch_def Let_def)
  show "let platform = (if process_platform w = ''win32'' then ''windows''
                       else process_platform w);
           arch = (if process_arch w = ''x64'' then ''amd64'' else ''arm64'');
           fileName = (if useExtended then ''hugo_extended'' else ''hugo'') @ ''_'' @ v @ ''_'' @
                      platform @ ''-'' @ arch @
                      (if process_platform w = ''win32'' then ''.zip'' else ''.tar.gz'');
           binDir = path_join (pathmod_of w) [globalStorage w, ''bin''];
           tmpDir = path_join (pathmod_of w) [globalStorage w, ''tmp'']
       in downloads (trace (snd (installHugoInternal v useExtended w))) =
            downloads (trace w) @
              (if fs_fails w binDir \<or> fs_fails w tmpDir then []
               else [(''https://github.com/gohugoio/hugo/releases/download/v'' @ v @ ''/'' @
                        fileName,
                      path_join (pathmod_of w) [tmpDir, fileName])])"
    unfolding install_downloads[OF mp ma] n by (simp add: Let_def)
qed

text \<open>
  The theorem on the Linux host of the examples, on a Windows host on ARM, and on a
  host whose platform is not in the table.
\<close>

theorem installHugoInternal_archive_name_witness:
  "downloads (trace (snd (installHugoInternal ''0.152.2'' True example_world))) =
     [(''https://github.com/gohugoio/hugo/releases/download/v0.152.2/hugo_extended_0.152.2_linux-amd64.tar.gz'',
       ''/store/tmp/hugo_extended_0.152.2_linux-amd64.tar.gz'')] \<and>
   downloads (trace (snd (installHugoInternal ''0.152.2'' False
       (example_world\<lparr>process_platform := ''win32'', process_arch := ''arm64''\<rparr>)))) =
     [(''https://github.com/gohugoio/hugo/releases/download/v0.152.2/hugo_0.152.2_windows-arm64.zip'',
       ''/store/tmp/hugo_0.152.2_windows-arm64.zip'')] \<and>
   installHugoInternal ''0.152.2'' True (example_world\<lparr>process_platform := ''freebsd''\<rparr>) =
     (Inl (UnsupportedPlatform ''freebsd''),
      emit (CallInstallHugoInternal ''0.152.2'' True)
        (example_world\<lparr>process_platform := ''freebsd''\<rparr>))"
proof -
  let ?W2 = "example_world\<lparr>process_platform := ''win32'', process_arch := ''arm64''\<rparr>"
  let ?W3 = "example_world\<lparr>process_platform := ''freebsd''\<rparr>"
  have f: "process_platform example_world = ''linux''" "process_arch example_world = ''x64''"
    "globalStorage example_world = ''/store''" "trace example_world = []"
    "fs_fails example_world = (\<lambda>p. False)" "pathmod_of example_world = posix ''/home/u''"
    by (simp_all add: example_world_def)
  have j: "posix_join [''/store'', ''tmp''] = ''/store/tmp''"
    "posix_join [''/store/tmp'', ''hugo_extended_0.152.2_linux-amd64.tar.gz''] =
       ''/store/tmp/hugo_extended_0.152.2_linux-amd64.tar.gz''"
    "posix_join [''/store/tmp'', ''hugo_0.152.2_windows-arm64.zip''] =
       ''/store/tmp/hugo_0.152.2_windows-arm64.zip''"
    by code_simp+
  have r1: "downloads (trace (snd (installHugoInternal ''0.152.2'' True example_world))) =
     [(''https://github.com/gohugoio/hugo/releases/download/v0.152.2/hugo_extended_0.152.2_linux-amd64.tar.gz'',
       ''/store/tmp/hugo_extended_0.152.2_linux-amd64.tar.gz'')]"
    using installHugoInternal_archive_name[of example_world "''0.152.2''" True,
        THEN conjunct2, THEN conjunct2]
    by (simp add: f j posix_def Let_def)
  have r2: "downloads (trace (snd (installHugoInternal ''0.152.2'' False ?W2))) =
     [(''https://github.com/gohugoio/hugo/releases/download/v0.152.2/hugo_0.152.2_windows-arm64.zip'',
       ''/store/tmp/hugo_0.152.2_windows-arm64.zip'')]"
    using installHugoInternal_archive_name[of ?W2 "''0.152.2''" False,
        THEN conjunct2, THEN conjunct2]
    by (simp add: f j posix_def Let_def)
  have r3: "installHugoInternal ''0.152.2'' True ?W3 =
     (Inl (UnsupportedPlatform ''freebsd''), emit (CallInstallHugoInternal ''0.152.2'' True) ?W3)"
    using installHugoInternal_archive_name[of ?W3 "''0.152.2''" True, THEN conjunct1]
    by simp
  from r1 r2 r3 show ?thesis by (intro conjI)
qed

section \<open>Properties of openPreview\<close>

lemma builds_append: "builds (xs @ ys) = builds xs @ builds ys"
  by (induction xs rule: builds.induct) auto

lemma frame_refl: "frame w w"
  by (simp add: frame_def)

lemma frame_trans: "frame a b \<Longrightarrow> frame b c \<Longrightarrow> frame a c"
  by (simp add: frame_def)

lemma frame_emit: "builds [e] = [] \<Longrightarrow> frame w (emit e w)"
  by (simp add: frame_def emit_def builds_append)

lemma frame_checkHugo: "frame w (snd (checkHugo c w))"
  by (simp add: checkHugo_def frame_emit)

lemma frame_exists_and_runs: "frame w (snd (exists_and_runs c w))"
  by (simp add: exists_and_runs_def frame_checkHugo frame_refl)

lemma frame_mkdirSync: "frame w (snd (mkdirSync p w))"
  by (simp add: mkdirSync_def frame_emit)

lemma frame_writeFileSync: "frame w (snd (writeFileSync p c w))"
  by (simp add: writeFileSync_def frame_def emit_def builds_append)




lemma frame_installHugoInternal: "frame w (snd (installHugoInternal v e w))"
  unfolding installHugoInternal_def frame_def
  by (simp add: Let_def mkdirSync_def copyFileSync_def rmrf_def emit_def builds_append
      checkHugo_def split: fetched.splits sum.splits bool.splits)

lemma frame_getLatest: "frame w (snd (getLatestHugoVersion w))"
  by (simp add: getLatestHugoVersion_def frame_emit split: option.splits)

lemma frame_installHugo: "frame w (snd (installHugo w))"
proof -
  obtain r w1 where g: "getLatestHugoVersion w = (r, w1)" by (cases "getLatestHugoVersion w")
  have f1: "frame w w1" using frame_getLatest[of w] g by simp
  have f2: "frame w (emit (Message ''warn.hugoLatestVersionFailed'') w1)"
    using f1 frame_emit[of "Message ''warn.hugoLatestVersionFailed''" w1] frame_trans by simp
  have i: "frame w (snd (installHugoInternal a b x))" if "frame w x" for a b x
    using that frame_installHugoInternal frame_trans by blast
  show ?thesis
  proof (cases "setting_trimmed (cfg_hugoVersion w) = []")
    case False
    then show ?thesis by (simp add: installHugo_def Let_def i frame_refl)
  next
    case True
    then show ?thesis
      by (cases r) (simp_all add: installHugo_def Let_def g i f1 f2)
  qed
qed

lemma frame_ensureHugo: "frame w (snd (ensureHugo f w))"
proof (cases "setting_trimmed (cfg_hugoPath w) = []")
  case False
  then show ?thesis
    using frame_checkHugo[of w "setting_trimmed (cfg_hugoPath w)"]
    by (auto simp add: ensureHugo_def Let_def bool.case_eq_if split: prod.splits)
next
  case u: True
  obtain b1 w1 where c1: "(if \<not> f then checkHugo ''hugo'' w else (False, w)) = (b1, w1)"
    by (cases "if \<not> f then checkHugo ''hugo'' w else (False, w)")
  have f1: "frame w w1" using c1 frame_checkHugo[of w "''hugo''"] frame_refl[of w]
    by (auto split: if_splits)
  show ?thesis
  proof (cases b1)
    case True
    with u c1 f1 show ?thesis by (simp add: ensureHugo_def Let_def)
  next
    case nb1: False
    obtain b2 w2 where c2: "(if \<not> f then exists_and_runs (hugoBin_of w1) w1 else (False, w1)) = (b2, w2)"
      by (cases "if \<not> f then exists_and_runs (hugoBin_of w1) w1 else (False, w1)")
    have f2: "frame w w2" using c2 frame_exists_and_runs[of w1 "hugoBin_of w1"] f1 frame_trans
      by (auto split: if_splits)
    show ?thesis
    proof (cases b2)
      case True
      with u c1 nb1 c2 f2 show ?thesis by (simp add: ensureHugo_def Let_def)
    next
      case nb2: False
      have f3: "frame w (emit AskInstall w2)"
        using f2 frame_emit[of AskInstall w2] frame_trans by simp
      obtain r4 w4 where c4: "installHugo (emit AskInstall w2) = (r4, w4)"
        by (cases "installHugo (emit AskInstall w2)")
      have f4: "frame w w4"
        using frame_installHugo[of "emit AskInstall w2"] c4 f3 frame_trans by auto
      obtain b5 w5 where c5: "exists_and_runs (hugoBin_of w1) w4 = (b5, w5)"
        by (cases "exists_and_runs (hugoBin_of w1) w4")
      have f5: "frame w w5"
        using f4 frame_exists_and_runs[of w4 "hugoBin_of w1"] c5 frame_trans by auto
      from u c1 nb1 c2 nb2 c4 c5 f2 f3 f4 f5 show ?thesis
        by (cases r4; cases b5) (simp_all add: ensureHugo_def Let_def)
    qed
  qed
qed



lemma frame_fields:
  assumes "frame w w'"
  shows "pathmod_of w' = pathmod_of w" "globalStorage w' = globalStorage w"
    "previewPanel w' = previewPanel w" "builds (trace w') = builds (trace w)"
  using assms by (simp_all add: frame_def)

lemma mkdirSync_cases:
  obtains (fail) e where "mkdirSync p w = (Inl e, emit (MkdirSync p) w)"
  | (ok) "mkdirSync p w = (Inr (), emit (MkdirSync p) w)"
  by (cases "fs_fails w p") (auto simp: mkdirSync_def)

lemma prepare_not_content:
  assumes ed: "activeTextEditor w = Some doc" and md: "doc_languageId doc = ''markdown''"
    and ws: "workspaceFolder w = Some ws" "ws \<noteq> []"
    and nc: "\<not> under_content (pathmod_of w) (path_join (pathmod_of w) [ws, ''content''])
               (doc_fsPath doc)"
  shows "\<exists>e. fst (prepare w) = Inl e" and "frame w (snd (prepare w))"
proof -
  obtain r1 w1 where e1: "ensureHugo False w = (r1, w1)" by (cases "ensureHugo False w")
  have f1: "frame w w1" using frame_ensureHugo[of w False] e1 by simp
  have P: "pathmod_of w1 = pathmod_of w" using f1 by (simp add: frame_def)
  have "(\<exists>e. fst (prepare w) = Inl e) \<and> frame w (snd (prepare w))"
  proof (cases r1)
    case (Inl e)
    with ed md ws e1 f1 show ?thesis by (simp add: prepare_def)
  next
    case (Inr hugo)
    let ?cd = "path_join (pathmod_of w) [path_join (pathmod_of w) [globalStorage w1, ''run''], ''content'']"
    let ?od = "path_join (pathmod_of w) [path_join (pathmod_of w) [globalStorage w1, ''run''], ''public'']"
    have f2: "frame w (emit (MkdirSync ?cd) w1)"
      using f1 frame_emit[of "MkdirSync ?cd" w1] frame_trans by simp
    have f3: "frame w (emit (MkdirSync ?od) (emit (MkdirSync ?cd) w1))"
      using f2 frame_emit[of "MkdirSync ?od" "emit (MkdirSync ?cd) w1"] frame_trans by simp
    show ?thesis
    proof (cases ?cd w1 rule: mkdirSync_cases)
      case (fail e)
      with ed md ws e1 Inr P f2 show ?thesis by (simp add: prepare_def Let_def)
    next
      case ok
      show ?thesis
      proof (cases ?od "emit (MkdirSync ?cd) w1" rule: mkdirSync_cases)
        case (fail e)
        with ed md ws e1 Inr P ok f3 show ?thesis by (simp add: prepare_def Let_def)
      next
        case ok2: ok
        with ed md ws e1 Inr P ok f3 nc show ?thesis by (simp add: prepare_def Let_def)
      qed
    qed
  qed
  then show "\<exists>e. fst (prepare w) = Inl e" and "frame w (snd (prepare w))" by simp_all
qed

lemma openPreview_prepare_fails:
  "fst (prepare w) = Inl e \<Longrightarrow> openPreview w = (Inl e, snd (prepare w))"
  by (cases "prepare w") (simp add: openPreview_def)


lemma map_of_write_file:
  "map_of (write_file p c fs) q = (if q = p then Some c else map_of fs q)"
  by (induction fs) (auto simp: write_file_def)

lemma paths_write_file: "fst ` set (write_file p c fs) = insert p (fst ` set fs)"
  by (auto simp: write_file_def image_iff)

lemma writeFileSync_cases:
  obtains (fail) e where "writeFileSync p c w = (Inl e, emit (WriteFileSync p) w)"
  | (ok) "writeFileSync p c w =
      (Inr (), (emit (WriteFileSync p) w)\<lparr>fs_files := write_file p c (fs_files w)\<rparr>)"
  by (cases "fs_fails w p") (auto simp: writeFileSync_def)

lemma prepare_success:
  assumes pr: "prepare w = (Inr p, w')"
    and ed: "activeTextEditor w = Some doc" and ws: "workspaceFolder w = Some ws"
  defines "P \<equiv> pathmod_of w"
  defines "contentDir \<equiv> path_join P [path_join P [globalStorage w, ''run''], ''content'']"
  defines "relPath \<equiv> path_relative P (path_join P [ws, ''content'']) (doc_fsPath doc)"
  defines "dst \<equiv> path_join P [contentDir, relPath]"
  shows "prep_contentDir p = contentDir \<and> prep_relPath p = relPath \<and> prep_dstMdPath p = dst \<and>
     fs_files w' = write_file dst (doc_text doc) (fs_files (snd (ensureHugo False w)))"
proof -
  from pr ed ws have md: "doc_languageId doc = ''markdown''" and wsn: "ws \<noteq> []"
    by (auto simp: prepare_def split: if_splits)
  obtain r1 w1 where e1: "ensureHugo False w = (r1, w1)" by (cases "ensureHugo False w")
  have f1: "frame w w1" using frame_ensureHugo[of w False] e1 by simp
  have Pw: "pathmod_of w1 = P" "globalStorage w1 = globalStorage w"
    using f1 by (simp_all add: frame_def P_def)
  from pr ed ws md wsn e1 obtain hugo where r1: "r1 = Inr hugo"
    by (cases r1) (auto simp: prepare_def)
  let ?od = "path_join P [path_join P [globalStorage w, ''run''], ''public'']"
  let ?w2 = "emit (MkdirSync contentDir) w1"
  let ?w3 = "emit (MkdirSync ?od) ?w2"
  let ?w4 = "emit (MkdirSync (path_dirname P dst)) ?w3"
  note defs = contentDir_def relPath_def dst_def
  show ?thesis
  proof (cases contentDir w1 rule: mkdirSync_cases)
    case fl1: (fail e)
    from ed ws md wsn e1 r1 Pw fl1 pr show ?thesis by (simp add: prepare_def Let_def defs)
  next
    case ok1: ok
    show ?thesis
    proof (cases ?od ?w2 rule: mkdirSync_cases)
      case fl2: (fail e)
      from ed ws md wsn e1 r1 Pw ok1 fl2 pr show ?thesis by (simp add: prepare_def Let_def defs)
    next
      case ok2: ok
      show ?thesis
      proof (cases "under_content P (path_join P [ws, ''content'']) (doc_fsPath doc)")
        case nuc: False
        from ed ws md wsn e1 r1 Pw ok1 ok2 nuc pr show ?thesis
          by (simp add: prepare_def Let_def defs)
      next
        case uc: True
        show ?thesis
        proof (cases "path_dirname P dst" ?w3 rule: mkdirSync_cases)
          case fl3: (fail e)
          from ed ws md wsn e1 r1 Pw ok1 ok2 uc fl3 pr show ?thesis
            by (simp add: prepare_def Let_def defs)
        next
          case ok3: ok
          show ?thesis
          proof (cases rule: writeFileSync_cases[where p = dst and c = "doc_text doc" and w = ?w4])
            case fl4: (fail e)
            from ed ws md wsn e1 r1 Pw ok1 ok2 uc ok3 fl4 pr show ?thesis
              by (simp add: prepare_def Let_def defs)
          next
            case ok4: ok
            from ed ws md wsn e1 r1 Pw ok1 ok2 uc ok3 ok4 pr show ?thesis
              by (auto simp add: prepare_def Let_def defs emit_def)
          qed
        qed
      qed
    qed
  qed
qed


text \<open>
  Claim C6. \<open>openPreview\<close> checks, in this order, that there is an active editor, that
  its document is Markdown, that a workspace folder is open, and that the document is
  the content directory of the workspace or lies under it. When one of the first three
  fails it throws the error of that check and has done nothing at all. When the fourth
  fails it throws an error too (that of the check, unless \<open>ensureHugo\<close> or the making
  of the temporary directories, which come before it, have thrown theirs), and it has
  started no build and has left the preview panel as it was.
\<close>

theorem openPreview_preconditions:
  "(activeTextEditor w = None \<longrightarrow> openPreview w = (Inl NoMarkdown, w)) \<and>
   (activeTextEditor w = Some doc \<and> doc_languageId doc \<noteq> ''markdown'' \<longrightarrow>
      openPreview w = (Inl NotMarkdown, w)) \<and>
   (activeTextEditor w = Some doc \<and> doc_languageId doc = ''markdown'' \<and>
    (workspaceFolder w = None \<or> workspaceFolder w = Some []) \<longrightarrow>
      openPreview w = (Inl NoWorkspace, w)) \<and>
   (activeTextEditor w = Some doc \<and> doc_languageId doc = ''markdown'' \<and>
    workspaceFolder w = Some ws \<and> ws \<noteq> [] \<and>
    \<not> under_content (pathmod_of w) (path_join (pathmod_of w) [ws, ''content''])
        (doc_fsPath doc) \<longrightarrow>
      (\<exists>e. fst (openPreview w) = Inl e) \<and>
      builds (trace (snd (openPreview w))) = builds (trace w) \<and>
      previewPanel (snd (openPreview w)) = previewPanel w)"
proof (intro conjI impI)
  assume "activeTextEditor w = None"
  then show "openPreview w = (Inl NoMarkdown, w)"
    by (simp add: openPreview_def prepare_def)
next
  assume "activeTextEditor w = Some doc \<and> doc_languageId doc \<noteq> ''markdown''"
  then show "openPreview w = (Inl NotMarkdown, w)"
    by (simp add: openPreview_def prepare_def)
next
  assume "activeTextEditor w = Some doc \<and> doc_languageId doc = ''markdown'' \<and>
    (workspaceFolder w = None \<or> workspaceFolder w = Some [])"
  then show "openPreview w = (Inl NoWorkspace, w)"
    by (auto simp add: openPreview_def prepare_def)
next
  assume a: "activeTextEditor w = Some doc \<and> doc_languageId doc = ''markdown'' \<and>
    workspaceFolder w = Some ws \<and> ws \<noteq> [] \<and>
    \<not> under_content (pathmod_of w) (path_join (pathmod_of w) [ws, ''content''])
        (doc_fsPath doc)"
  then have e: "\<exists>e. fst (prepare w) = Inl e" and f: "frame w (snd (prepare w))"
    using prepare_not_content[of w doc ws] by blast+
  from e obtain err where err: "fst (prepare w) = Inl err" ..
  then have o: "openPreview w = (Inl err, snd (prepare w))"
    by (rule openPreview_prepare_fails)
  from o show "\<exists>e. fst (openPreview w) = Inl e" by simp
  from o f show "builds (trace (snd (openPreview w))) = builds (trace w)"
    by (simp add: frame_def)
  from o f show "previewPanel (snd (openPreview w)) = previewPanel w"
    by (simp add: frame_def)
qed

text \<open>
  The theorem without an editor, with a text file in the editor, without a workspace,
  and with a Markdown document that lies beside the content directory.
\<close>

theorem openPreview_preconditions_witness:
  "openPreview example_world = (Inl NoMarkdown, example_world) \<and>
   openPreview (example_workspace\<lparr>activeTextEditor := Some (example_doc_a\<lparr>doc_languageId := ''plaintext''\<rparr>)\<rparr>) =
     (Inl NotMarkdown,
      example_workspace\<lparr>activeTextEditor := Some (example_doc_a\<lparr>doc_languageId := ''plaintext''\<rparr>)\<rparr>) \<and>
   openPreview (example_workspace\<lparr>workspaceFolder := None\<rparr>) =
     (Inl NoWorkspace, example_workspace\<lparr>workspaceFolder := None\<rparr>) \<and>
   builds (trace (snd (openPreview
     (example_workspace\<lparr>activeTextEditor := Some (example_doc_a\<lparr>doc_fsPath := ''/ws/contents/a.md''\<rparr>)\<rparr>)))) = [] \<and>
   previewPanel (snd (openPreview
     (example_workspace\<lparr>activeTextEditor := Some (example_doc_a\<lparr>doc_fsPath := ''/ws/contents/a.md''\<rparr>)\<rparr>))) = None"
proof -
  let ?d2 = "example_doc_a\<lparr>doc_languageId := ''plaintext''\<rparr>"
  let ?W2 = "example_workspace\<lparr>activeTextEditor := Some ?d2\<rparr>"
  let ?W3 = "example_workspace\<lparr>workspaceFolder := None\<rparr>"
  let ?d4 = "example_doc_a\<lparr>doc_fsPath := ''/ws/contents/a.md''\<rparr>"
  let ?W4 = "example_workspace\<lparr>activeTextEditor := Some ?d4\<rparr>"
  have r1: "openPreview example_world = (Inl NoMarkdown, example_world)"
    using openPreview_preconditions[of example_world, THEN conjunct1]
    by (simp add: example_world_def)
  have r2: "openPreview ?W2 = (Inl NotMarkdown, ?W2)"
    using openPreview_preconditions[of ?W2 ?d2, THEN conjunct2, THEN conjunct1]
    by (simp add: example_doc_a_def)
  have r3: "openPreview ?W3 = (Inl NoWorkspace, ?W3)"
    using openPreview_preconditions[of ?W3 example_doc_a, THEN conjunct2, THEN conjunct2,
        THEN conjunct1]
    by (simp add: example_workspace_def example_doc_a_def)
  have nc: "\<not> under_content (pathmod_of ?W4) (path_join (pathmod_of ?W4) [''/ws'', ''content''])
        (doc_fsPath ?d4)"
    by code_simp
  have h4: "activeTextEditor ?W4 = Some ?d4 \<and> doc_languageId ?d4 = ''markdown'' \<and>
    workspaceFolder ?W4 = Some ''/ws'' \<and> ''/ws'' \<noteq> [] \<and>
    \<not> under_content (pathmod_of ?W4) (path_join (pathmod_of ?W4) [''/ws'', ''content''])
        (doc_fsPath ?d4)"
    using nc by (simp add: example_workspace_def example_doc_a_def)
  have t4: "trace ?W4 = []" "previewPanel ?W4 = None"
    by (simp_all add: example_workspace_def example_world_def)
  from openPreview_preconditions[of ?W4 ?d4 "''/ws''", THEN conjunct2, THEN conjunct2,
      THEN conjunct2, rule_format, OF h4]
  have r4: "builds (trace (snd (openPreview ?W4))) = []"
    and r5: "previewPanel (snd (openPreview ?W4)) = None"
    by (simp_all add: t4)
  from r1 r2 r3 r4 r5 show ?thesis by (intro conjI)
qed

lemma files_under_set:
  "set (files_under P dir w) = {q \<in> fst ` set (fs_files w). prefix (dir @ path_sep P) q}"
  by (auto simp: files_under_def)

text \<open>
  Claim C2, amended. When \<open>openPreview\<close> reaches the build step, the copy step has
  written the text of the opened document to its path relative to the content
  directory of the workspace, under \<^verbatim>\<open>run/content\<close> of the storage, and has changed no
  other file: the temporary content directory holds that file and every file that was
  there before, so it holds exactly one file only when no other was there.
\<close>

theorem openPreview_copy_step:
  assumes "prepare w = (Inr p, w')"
    and "activeTextEditor w = Some doc" and "workspaceFolder w = Some ws"
  shows
    "(let P = pathmod_of w;
          contentDir = path_join P [path_join P [globalStorage w, ''run''], ''content''];
          relPath = path_relative P (path_join P [ws, ''content'']) (doc_fsPath doc);
          dst = path_join P [contentDir, relPath];
          before = snd (ensureHugo False w)
      in prep_contentDir p = contentDir \<and> prep_dstMdPath p = dst \<and>
         map_of (fs_files w') dst = Some (doc_text doc) \<and>
         (\<forall>q. q \<noteq> dst \<longrightarrow> map_of (fs_files w') q = map_of (fs_files before) q) \<and>
         set (files_under P contentDir w') =
           (if prefix (contentDir @ path_sep P) dst then {dst} else {}) \<union>
           set (files_under P contentDir before))"
proof -
  note s = prepare_success[OF assms]
  from s have f: "fs_files w' =
      write_file
        (path_join (pathmod_of w)
          [path_join (pathmod_of w) [path_join (pathmod_of w) [globalStorage w, ''run''], ''content''],
           path_relative (pathmod_of w) (path_join (pathmod_of w) [ws, ''content'']) (doc_fsPath doc)])
        (doc_text doc) (fs_files (snd (ensureHugo False w)))"
    by simp
  show ?thesis
    unfolding Let_def files_under_set f paths_write_file
    using s by (auto simp: map_of_write_file)
qed

text \<open>The first preview of the example workspace: the content directory was empty.\<close>

theorem openPreview_copy_step_witness:
  "map_of (fs_files (snd (prepare example_workspace))) ''/store/run/content/posts/a.md'' =
     Some ''# A'' \<and>
   set (files_under (posix ''/home/u'') ''/store/run/content'' (snd (prepare example_workspace))) =
     {''/store/run/content/posts/a.md''}"
proof -
  obtain p w' where pr: "prepare example_workspace = (fst (prepare example_workspace), w')"
    and w': "w' = snd (prepare example_workspace)"
    by simp
  have ok: "fst (prepare example_workspace) =
      Inr \<lparr> prep_hugo = ''hugo'', prep_workspace = ''/ws'',
            prep_contentDir = ''/store/run/content'', prep_outDir = ''/store/run/public'',
            prep_relPath = ''posts/a.md'', prep_docPath = ''/ws/content/posts/a.md'',
            prep_dstMdPath = ''/store/run/content/posts/a.md'' \<rparr>"
    by code_simp
  have e: "activeTextEditor example_workspace = Some example_doc_a"
    "workspaceFolder example_workspace = Some ''/ws''"
    by (simp_all add: example_workspace_def)
  have v: "pathmod_of example_workspace = posix ''/home/u''"
    "globalStorage example_workspace = ''/store''"
    by (simp_all add: example_workspace_def example_world_def)
  have j: "path_join (posix ''/home/u'') [path_join (posix ''/home/u'') [''/store'', ''run''], ''content'']
      = ''/store/run/content''"
    "path_relative (posix ''/home/u'') (path_join (posix ''/home/u'') [''/ws'', ''content''])
       (doc_fsPath example_doc_a) = ''posts/a.md''"
    "path_join (posix ''/home/u'') [''/store/run/content'', ''posts/a.md''] =
       ''/store/run/content/posts/a.md''"
    "path_sep (posix ''/home/u'') = ''/''"
    "doc_text example_doc_a = ''# A''"
    by code_simp+
  have b: "files_under (posix ''/home/u'') ''/store/run/content''
      (snd (ensureHugo False example_workspace)) = []"
    by code_simp
  from openPreview_copy_step[OF pr[unfolded ok] e]
  show ?thesis
    unfolding w'[symmetric] by (simp add: Let_def v j b)
qed

text \<open>
  Claim C2 as it is written fails on the second preview: nothing empties
  \<^verbatim>\<open>run/content\<close>, so after the first document of the example workspace has been
  previewed and the second is opened, the second call reaches the build step with two
  files in the temporary content directory.
\<close>

theorem openPreview_second_preview_counterexample:
  "fst (openPreview example_workspace) = Inr () \<and>
   fst (prepare ((snd (openPreview example_workspace))\<lparr>activeTextEditor := Some example_doc_b\<rparr>)) =
     Inr \<lparr> prep_hugo = ''hugo'', prep_workspace = ''/ws'',
           prep_contentDir = ''/store/run/content'', prep_outDir = ''/store/run/public'',
           prep_relPath = ''posts/b.md'', prep_docPath = ''/ws/content/posts/b.md'',
           prep_dstMdPath = ''/store/run/content/posts/b.md'' \<rparr> \<and>
   files_under (posix ''/home/u'') ''/store/run/content''
     (snd (prepare ((snd (openPreview example_workspace))\<lparr>activeTextEditor := Some example_doc_b\<rparr>))) =
     [''/store/run/content/posts/b.md'', ''/store/run/content/posts/a.md'']"
  by code_simp

section \<open>Properties of the server process\<close>

text \<open>
  The guard of \<open>startHugoServer\<close>: with a managed process the call changes nothing, and
  \<open>stopHugoServer\<close> and the two handlers clear the variable.
\<close>

lemma start_guard: "hugoServerProcess s \<noteq> None \<Longrightarrow> do_step StartCall s = s"
  by (simp add: start_first_half_def)

lemma stop_clears: "hugoServerProcess (do_step StopCall s) = None"
  by (simp add: stop_call_def split: option.splits)

lemma error_clears: "p < spawned s \<Longrightarrow> hugoServerProcess (do_step (ProcError p) s) = None"
  by (simp add: proc_error_def)

text \<open>
  When every operation is run to its end before the next one begins, at most one
  process is alive at any time, and it is the managed one.
\<close>

lemma single_server_initial: "single_server initial_server"
  by (simp add: single_server_def initial_server_def)

lemma single_server_operation: "single_server s \<Longrightarrow> single_server (do_operation op s)"
  by (cases op)
    (auto simp: single_server_def start_first_half_def start_second_half_def stop_to_end_def
      stop_call_def proc_exit_def Let_def split: option.splits start_outcome.splits if_splits)

lemma single_server_operations:
  "single_server s \<Longrightarrow> single_server (foldl (\<lambda>t op. do_operation op t) s ops)"
  by (induction ops arbitrary: s) (auto simp: single_server_operation)

lemma single_server_live: "single_server s \<Longrightarrow> length (live s) \<le> 1"
  by (auto simp: single_server_def)

text \<open>
  Claim C4 fails when two calls overlap. Two calls of \<open>startHugoServer\<close> that both pass
  the guard before either has come back from \<^verbatim>\<open>await ensureHugo(...)\<close> both spawn a
  server: the processes 0 and 1 are alive, and the variable holds process 1 only.
\<close>

theorem two_starts_two_servers:
  "live (run [StartCall, StartCall, StartResume (Spawns True), StartResume (Spawns True)]
          initial_server) = [0, 1] \<and>
   hugoServerProcess
     (run [StartCall, StartCall, StartResume (Spawns True), StartResume (Spawns True)]
        initial_server) = Some 1"
  by code_simp

text \<open>
  It fails as well when a start follows a stop before the killed process has exited:
  the exit handler of the old process then clears the variable that holds the new one,
  and the next start spawns a second server beside it.
\<close>

lemma start_during_stop_two_servers:
  "run [StartCall, StartResume (Spawns True), StopCall, StartCall, StartResume (Spawns True),
        ProcExit 0] initial_server =
     \<lparr> hugoServerProcess = None, live = [1], spawned = 2, suspended_starts = 0,
       restarts_waiting = [], workspace_open = True \<rparr> \<and>
   live (run [StartCall, StartResume (Spawns True), StopCall, StartCall,
              StartResume (Spawns True), ProcExit 0, StartCall, StartResume (Spawns True)]
          initial_server) = [1, 2]"
  by code_simp

end
